theory Spec2Isabelle
  imports
    Complex_Main
    "HOL-Library.Multiset"
    "HOL-Library.Disjoint_Sets"
    "HOL-Library.List_Lexorder"
    "HOL-Library.Char_ord"
begin

section \<open>Errors\<close>

text \<open>
  The Python exceptions the modelled functions can raise. A \<^verbatim>\<open>raise("text")\<close> of a
  plain string is a \<^verbatim>\<open>TypeError\<close> in Python 3, and
  \<^verbatim>\<open>raise(ValueError("...").format(r,s,k))\<close> is an \<^verbatim>\<open>AttributeError\<close>
  (an exception object has no \<^verbatim>\<open>format\<close>). A call of a name that no module binds is
  a \<^verbatim>\<open>NameError\<close>.
\<close>

datatype error = ValueError | AttributeError | TypeError | IndexError | KeyError | NameError

section \<open>Double-precision arithmetic\<close>

text \<open>
  A Python float is an IEEE 754 double. A float is modelled by the real number it
  denotes, and each arithmetic operation by the exact operation followed by
  \<open>round_double\<close>, the rounding to the nearest double, ties to the even significand: 53
  significant bits, exponents from -1022, and below that the fixed spacing \<open>2 ^ -1074\<close>
  of the subnormal numbers. Overflow is not modelled: every number computed below is far
  from \<open>2 ^ 1024\<close>. The integers 0 and 1 that the code mixes with floats denote themselves.
\<close>

definition round_half_even :: "real \<Rightarrow> int" where
  "round_half_even x =
     (let f = \<lfloor>x\<rfloor> in
      if x - of_int f < 1 / 2 then f
      else if x - of_int f > 1 / 2 then f + 1
      else if even f then f else f + 1)"

definition round_double :: "real \<Rightarrow> real" where
  "round_double x =
     (if x = 0 then 0
      else (let e = max \<lfloor>log 2 \<bar>x\<bar>\<rfloor> (- 1022);
                q = 2 powr (of_int e - 52)
            in sgn x * q * of_int (round_half_even (\<bar>x\<bar> / q))))"

definition float_add :: "real \<Rightarrow> real \<Rightarrow> real" where
  "float_add a b = round_double (a + b)"

definition float_sub :: "real \<Rightarrow> real \<Rightarrow> real" where
  "float_sub a b = round_double (a - b)"

definition float_mul :: "real \<Rightarrow> real \<Rightarrow> real" where
  "float_mul a b = round_double (a * b)"

definition float_div :: "real \<Rightarrow> real \<Rightarrow> real" where
  "float_div a b = round_double (a / b)"

text \<open>
  The multiples of \<open>2 ^ - n\<close> in the unit interval. Up to \<open>n = 53\<close> they are doubles.
\<close>

definition on_grid :: "nat \<Rightarrow> real \<Rightarrow> bool" where
  "on_grid n x \<longleftrightarrow> (\<exists>m::int. 0 \<le> m \<and> m \<le> 2 ^ n \<and> x = of_int m / 2 ^ n)"

section \<open>The voting-weight recurrence\<close>

text \<open>
  \<^verbatim>\<open>monotone_families.balance(r, s)\<close>: the two-family recurrence. Python returns the
  integers 1 and 0 in the base cases; the sum and the division by two are float
  operations. The recursion limit of the interpreter is not modelled.
\<close>

function mf_balance :: "int \<Rightarrow> int \<Rightarrow> real" where
  "mf_balance r s =
     (if s \<le> 0 then 1
      else if s > r then 0
      else (let val1 = float_div (float_add (mf_balance (r - 1) s) (mf_balance (r - 1) (s - 1))) 2;
                val2 = mf_balance (r - 2) (s - 1)
            in min val1 val2))"
  by pat_completeness auto
termination
  by (relation "measure (\<lambda>(r, s). nat r)") auto

declare mf_balance.simps [simp del]

definition mf_weight :: "int \<Rightarrow> int \<Rightarrow> real" where
  "mf_weight r s = float_sub (mf_balance r s) (mf_balance (r - 1) s)"

text \<open>
  \<^verbatim>\<open>rwav_protocol.balance(r, s, k=2)\<close>. The recursive calls of the branch
  \<^verbatim>\<open>k==2\<close> leave \<^verbatim>\<open>k\<close> at its default. For \<^verbatim>\<open>k>2\<close> the code raises
  \<^verbatim>\<open>ValueError\<close> when \<^verbatim>\<open>s>1\<close> and uses \<^verbatim>\<open>math.pow\<close> when \<^verbatim>\<open>s==1\<close>
  (taken here as the correctly rounded power); every other case falls through to the
  last \<^verbatim>\<open>raise\<close>.
\<close>

function balance :: "int \<Rightarrow> int \<Rightarrow> int \<Rightarrow> error + real" where
  "balance r s k =
     (if s \<le> 0 then Inr 1
      else if s > r then Inr 0
      else if k = 2 then
        (case balance (r - 1) s 2 of
           Inl e \<Rightarrow> Inl e
         | Inr a \<Rightarrow>
            (case balance (r - 1) (s - 1) 2 of
               Inl e \<Rightarrow> Inl e
             | Inr b \<Rightarrow>
                (case balance (r - 2) (s - 1) 2 of
                   Inl e \<Rightarrow> Inl e
                 | Inr c \<Rightarrow> Inr (min (float_div (float_add a b) 2) c))))
      else if k > 2 then
        (if s > 1 then Inl ValueError
         else if s = 1 then
           (let Lk = round_double (2 powr (float_div 1 (real_of_int (k - 1))))
            in Inr (float_sub 1 (float_div 1 (round_double (Lk powr real_of_int r)))))
         else Inl AttributeError)
      else Inl AttributeError)"
  by pat_completeness auto
termination
  by (relation "measure (\<lambda>(r, s, k). nat r)") auto

declare balance.simps [simp del]

definition weight :: "int \<Rightarrow> int \<Rightarrow> int \<Rightarrow> error + real" where
  "weight r s k =
     (case balance r s k of
        Inl e \<Rightarrow> Inl e
      | Inr a \<Rightarrow> (case balance (r - 1) s k of Inl e \<Rightarrow> Inl e | Inr b \<Rightarrow> Inr (float_sub a b)))"

section \<open>Agents and their valuations\<close>

text \<open>
  A Python set of goods is modelled as a list without duplicates, in the order in which
  the set is iterated; \<^verbatim>\<open>set(xs)\<close> is \<open>remdups xs\<close>. A dict with good keys is an
  association list with distinct keys. The table of a monotone agent is keyed by
  \<^verbatim>\<open>frozenset\<close>, so it is a map from sets.
\<close>

fun traverse :: "('a \<Rightarrow> error + 'b) \<Rightarrow> 'a list \<Rightarrow> error + 'b list" where
  "traverse f [] = Inr []"
| "traverse f (x # xs) =
     (case f x of
        Inl e \<Rightarrow> Inl e
      | Inr y \<Rightarrow> (case traverse f xs of Inl e \<Rightarrow> Inl e | Inr ys \<Rightarrow> Inr (y # ys)))"

fun py_min :: "int list \<Rightarrow> error + int" where
  "py_min [] = Inl ValueError"
| "py_min (x # xs) = Inr (fold min xs x)"

fun py_max :: "int list \<Rightarrow> error + int" where
  "py_max [] = Inl ValueError"
| "py_max (x # xs) = Inr (fold max xs x)"

text \<open>\<^verbatim>\<open>itertools.combinations(xs, r)\<close>, in its order of generation.\<close>

fun combinations :: "'a list \<Rightarrow> nat \<Rightarrow> 'a list list" where
  "combinations xs 0 = [[]]"
| "combinations [] (Suc r) = []"
| "combinations (x # xs) (Suc r) = map ((#) x) (combinations xs r) @ combinations xs (Suc r)"

text \<open>\<^verbatim>\<open>bundle.difference(other)\<close> and the slice \<^verbatim>\<open>xs[c:]\<close> (a negative \<^verbatim>\<open>c\<close> counts from the end).\<close>

definition difference :: "'a list \<Rightarrow> 'a list \<Rightarrow> 'a list" where
  "difference bundle other = filter (\<lambda>g. g \<notin> set other) bundle"

definition slice_from :: "'a list \<Rightarrow> int \<Rightarrow> 'a list" where
  "slice_from xs c = (if c < 0 then drop (nat (int (length xs) + c)) xs else drop (nat c) xs)"

datatype 'a agent =
    MonotoneAgent (total_value: int) (cardinality: int) (map_bundle_to_value: "'a set \<rightharpoonup> int")
  | AdditiveAgent (total_value: int) (cardinality: int) (map_good_to_value: "('a \<times> int) list")
      (desired_goods: "'a list")
  | BinaryAgent (total_value: int) (cardinality: int) (desired_goods: "'a list")

text \<open>The three constructors (\<^verbatim>\<open>__init__\<close>). None of them validates its argument.\<close>

definition mk_MonotoneAgent :: "('a list \<times> int) list \<Rightarrow> int \<Rightarrow> error + 'a agent" where
  "mk_MonotoneAgent d n =
     (case py_max (map snd d) of
        Inl e \<Rightarrow> Inl e
      | Inr tv \<Rightarrow>
          Inr (MonotoneAgent tv n
                 ((fold (\<lambda>(bundle, v) m. m(set bundle \<mapsto> v)) d Map.empty)({} \<mapsto> 0))))"

definition mk_AdditiveAgent :: "('a \<times> int) list \<Rightarrow> int \<Rightarrow> 'a agent" where
  "mk_AdditiveAgent d n =
     AdditiveAgent (sum_list (map snd d)) n d (map fst (filter (\<lambda>(g, v). v > 0) d))"

definition mk_BinaryAgent :: "'a list \<Rightarrow> int \<Rightarrow> 'a agent" where
  "mk_BinaryAgent desired n = BinaryAgent (int (length desired)) n (remdups desired)"

text \<open>\<^verbatim>\<open>value(goods)\<close> of each variant; \<^verbatim>\<open>goods\<close> is any iterable of goods.\<close>

fun agent_value :: "'a agent \<Rightarrow> 'a list \<Rightarrow> error + int" where
  "agent_value (MonotoneAgent t c m) goods =
     (case m (set goods) of Some v \<Rightarrow> Inr v | None \<Rightarrow> Inl ValueError)"
| "agent_value (AdditiveAgent t c m d) goods =
     (if list_all (\<lambda>g. map_of m g \<noteq> None) goods
      then Inr (sum_list (map (\<lambda>g. the (map_of m g)) goods))
      else Inl KeyError)"
| "agent_value (BinaryAgent t c d) goods =
     Inr (int (length (filter (\<lambda>g. g \<in> set goods) d)))"

text \<open>
  \<^verbatim>\<open>value_except_best_c_goods\<close> and \<^verbatim>\<open>value_except_worst_c_goods\<close>: the brute force
  of the base class for a monotone agent, the sorted shortcut of an additive agent, and
  \<^verbatim>\<open>value(bundle) - c\<close> for a binary agent.
\<close>

fun value_except_best_c_goods :: "'a agent \<Rightarrow> 'a list \<Rightarrow> int \<Rightarrow> error + int" where
  "value_except_best_c_goods (MonotoneAgent t k m) bundle c =
     (if int (length bundle) \<le> c then Inr 0
      else if c < 0 then Inl ValueError
      else (case traverse (\<lambda>sub_bundle. agent_value (MonotoneAgent t k m) (difference bundle sub_bundle))
                   (combinations bundle (nat c)) of
              Inl e \<Rightarrow> Inl e
            | Inr vs \<Rightarrow> py_min vs))"
| "value_except_best_c_goods (AdditiveAgent t k m d) bundle c =
     (if int (length bundle) \<le> c then Inr 0
      else if list_all (\<lambda>g. map_of m g \<noteq> None) bundle
      then (let sorted_bundle = sort_key (\<lambda>g. - the (map_of m g)) bundle
            in agent_value (AdditiveAgent t k m d) (slice_from sorted_bundle c))
      else Inl KeyError)"
| "value_except_best_c_goods (BinaryAgent t k d) bundle c =
     (if int (length bundle) \<le> c then Inr 0
      else (case agent_value (BinaryAgent t k d) bundle of Inl e \<Rightarrow> Inl e | Inr v \<Rightarrow> Inr (v - c)))"

fun value_except_worst_c_goods :: "'a agent \<Rightarrow> 'a list \<Rightarrow> int \<Rightarrow> error + int" where
  "value_except_worst_c_goods (MonotoneAgent t k m) bundle c =
     (if int (length bundle) \<le> c then Inr 0
      else if c < 0 then Inl ValueError
      else (case traverse (\<lambda>sub_bundle. agent_value (MonotoneAgent t k m) (difference bundle sub_bundle))
                   (combinations bundle (nat c)) of
              Inl e \<Rightarrow> Inl e
            | Inr vs \<Rightarrow> py_max vs))"
| "value_except_worst_c_goods (AdditiveAgent t k m d) bundle c =
     (if int (length bundle) \<le> c then Inr 0
      else if list_all (\<lambda>g. map_of m g \<noteq> None) bundle
      then (let sorted_bundle = sort_key (\<lambda>g. the (map_of m g)) bundle
            in agent_value (AdditiveAgent t k m d) (slice_from sorted_bundle c))
      else Inl KeyError)"
| "value_except_worst_c_goods (BinaryAgent t k d) bundle c =
     (if int (length bundle) \<le> c then Inr 0
      else (case agent_value (BinaryAgent t k d) bundle of Inl e \<Rightarrow> Inl e | Inr v \<Rightarrow> Inr (v - c)))"

text \<open>
  The valuations that grow with the bundle: a monotone table, non-negative additive
  weights, and every binary agent.
\<close>

fun monotone_valuation :: "'a agent \<Rightarrow> bool" where
  "monotone_valuation (MonotoneAgent t c m) =
     (\<forall>X Y v w. X \<subseteq> Y \<longrightarrow> m X = Some v \<longrightarrow> m Y = Some w \<longrightarrow> v \<le> w)"
| "monotone_valuation (AdditiveAgent t c m d) = list_all (\<lambda>(g, v). 0 \<le> v) m"
| "monotone_valuation (BinaryAgent t c d) = True"

section \<open>Enumerating partitions\<close>

text \<open>
  A generator is modelled by the list of the values it yields, in order. Indexing an
  empty list (\<^verbatim>\<open>collection[0]\<close>) raises \<^verbatim>\<open>IndexError\<close>.
\<close>

definition insert_first :: "'a \<Rightarrow> 'a list list \<Rightarrow> 'a list list list" where
  "insert_first first smaller =
     map (\<lambda>n. take n smaller @ [first # (smaller ! n)] @ drop (n + 1) smaller) [0..<length smaller]"

fun partitions :: "'a list \<Rightarrow> error + 'a list list list" where
  "partitions [] = Inl IndexError"
| "partitions [x] = Inr [[[x]]]"
| "partitions (first # rest) =
     (case partitions rest of
        Inl e \<Rightarrow> Inl e
      | Inr ps \<Rightarrow>
          Inr (concat (map (\<lambda>smaller. insert_first first smaller @ [[first] # smaller]) ps)))"

fun partitions_to_at_most_c :: "'a list \<Rightarrow> int \<Rightarrow> error + 'a list list list" where
  "partitions_to_at_most_c [] c = Inl IndexError"
| "partitions_to_at_most_c [x] c = Inr [[[x]]]"
| "partitions_to_at_most_c (first # rest) c =
     (case partitions rest of
        Inl e \<Rightarrow> Inl e
      | Inr ps \<Rightarrow>
          Inr (concat (map (\<lambda>smaller. insert_first first smaller @
                                      (if int (length smaller) < c then [[first] # smaller] else [])) ps)))"

definition partitions_to_exactly_c :: "'a list \<Rightarrow> int \<Rightarrow> error + 'a list list list" where
  "partitions_to_exactly_c collection c =
     (case partitions_to_at_most_c collection c of
        Inl e \<Rightarrow> Inl e
      | Inr ps \<Rightarrow> Inr (filter (\<lambda>p. int (length p) = c) ps))"

text \<open>
  The Bell numbers, as sums of the Stirling numbers of the second kind
  (\<open>Stirling2 n k\<close> counts the partitions of an \<open>n\<close>-element set into \<open>k\<close> parts).
\<close>

fun Stirling2 :: "nat \<Rightarrow> nat \<Rightarrow> nat" where
  "Stirling2 0 0 = 1"
| "Stirling2 0 (Suc k) = 0"
| "Stirling2 (Suc n) 0 = 0"
| "Stirling2 (Suc n) (Suc k) = Suc k * Stirling2 n (Suc k) + Stirling2 n k"

definition Bell :: "nat \<Rightarrow> nat" where
  "Bell n = (\<Sum>k\<le>n. Stirling2 n k)"


section \<open>Families\<close>

text \<open>
  Modelled from the spec: the class \<^verbatim>\<open>Family\<close> is not among the sources. The spec
  gives it an ordered collection of members, each with a target share, a fairness
  criterion, \<^verbatim>\<open>num_of_members([predicate])\<close> and \<^verbatim>\<open>num_of_members_who_want(good)\<close>.
  A member record stands for \<^verbatim>\<open>cardinality\<close> identical members, so the counts add
  cardinalities; a member wants a good when the good is among its \<^verbatim>\<open>desired_goods\<close>.
\<close>

record 'a member =
  agent :: "'a agent"
  target_value :: int

record 'a family =
  members :: "'a member list"
  fairness_criterion :: "int \<Rightarrow> int"

definition num_of_members :: "'a family \<Rightarrow> int" where
  "num_of_members f = sum_list (map (\<lambda>m. cardinality (agent m)) (members f))"

definition num_of_members_if :: "'a family \<Rightarrow> ('a member \<Rightarrow> error + bool) \<Rightarrow> error + int" where
  "num_of_members_if f pred =
     (case traverse pred (members f) of
        Inl e \<Rightarrow> Inl e
      | Inr bs \<Rightarrow>
          Inr (sum_list (map (\<lambda>(m, b). if b then cardinality (agent m) else 0) (zip (members f) bs))))"

fun wants :: "'a agent \<Rightarrow> 'a \<Rightarrow> bool" where
  "wants (MonotoneAgent t c m) g = False"
| "wants (AdditiveAgent t c m d) g = (g \<in> set d)"
| "wants (BinaryAgent t c d) g = (g \<in> set d)"

definition num_of_members_who_want :: "'a family \<Rightarrow> 'a \<Rightarrow> int" where
  "num_of_members_who_want f g =
     sum_list (map (\<lambda>m. if wants (agent m) g then cardinality (agent m) else 0) (members f))"

section \<open>RWAV: round robin with weighted approval voting\<close>

text \<open>\<^verbatim>\<open>rwav_protocol.member_weight\<close>.\<close>

definition member_weight :: "'a agent \<Rightarrow> int \<Rightarrow> 'a list \<Rightarrow> 'a list \<Rightarrow> int \<Rightarrow> error + real" where
  "member_weight member target owned_goods remaining_goods num_of_families =
     (case agent_value member remaining_goods of
        Inl e \<Rightarrow> Inl e
      | Inr member_remaining_value \<Rightarrow>
          (case agent_value member owned_goods of
             Inl e \<Rightarrow> Inl e
           | Inr member_current_value \<Rightarrow>
               weight member_remaining_value (target - member_current_value) num_of_families))"

text \<open>
  The loop of \<^verbatim>\<open>choose_good\<close> over the members: \<^verbatim>\<open>map_good_to_total_weight\<close> is a
  \<^verbatim>\<open>defaultdict(int)\<close>, a total function that is 0 by default; the weight of a good
  grows by a float product. (When the weight is one of the integers 0 and 1, Python
  multiplies and adds integers exactly; that is the float result as long as the sums of
  cardinalities stay below \<open>2 ^ 53\<close>.) A monotone agent has no attribute
  \<^verbatim>\<open>desired_goods\<close>.
\<close>

fun total_weights ::
  "'a member list \<Rightarrow> 'a list \<Rightarrow> 'a list \<Rightarrow> int \<Rightarrow> ('a \<Rightarrow> real) \<Rightarrow> error + ('a \<Rightarrow> real)" where
  "total_weights [] owned_goods remaining_goods k w = Inr w"
| "total_weights (m # ms) owned_goods remaining_goods k w =
     (case member_weight (agent m) (target_value m) owned_goods remaining_goods k of
        Inl e \<Rightarrow> Inl e
      | Inr current_member_weight \<Rightarrow>
          (case agent m of
             MonotoneAgent t c tab \<Rightarrow> Inl AttributeError
           | _ \<Rightarrow>
               total_weights ms owned_goods remaining_goods k
                 (\<lambda>good. if good \<in> set (desired_goods (agent m))
                          then float_add (w good)
                                 (float_mul current_member_weight (real_of_int (cardinality (agent m))))
                          else w good)))"

text \<open>
  \<^verbatim>\<open>min(remaining_goods, key=lambda good: (-weight[good], good))\<close>: tuples compare
  lexicographically, and \<^verbatim>\<open>min\<close> keeps the first minimal element it meets.
\<close>

definition key_less :: "('a::linorder \<Rightarrow> real) \<Rightarrow> 'a \<Rightarrow> 'a \<Rightarrow> bool" where
  "key_less w g h = (- w g < - w h \<or> (- w g = - w h \<and> g < h))"

fun min_by_key :: "('a::linorder \<Rightarrow> real) \<Rightarrow> 'a list \<Rightarrow> error + 'a" where
  "min_by_key w [] = Inl ValueError"
| "min_by_key w (g # gs) = Inr (fold (\<lambda>h best. if key_less w h best then h else best) gs g)"

definition choose_good :: "('a::linorder) family \<Rightarrow> 'a list \<Rightarrow> 'a list \<Rightarrow> int \<Rightarrow> error + 'a" where
  "choose_good family owned_goods remaining_goods num_of_families =
     (case total_weights (members family) owned_goods remaining_goods num_of_families (\<lambda>good. 0) of
        Inl e \<Rightarrow> Inl e
      | Inr map_good_to_total_weight \<Rightarrow> min_by_key map_good_to_total_weight remaining_goods)"

text \<open>\<^verbatim>\<open>s.add(g)\<close> on a set; \<^verbatim>\<open>s.remove(g)\<close> raises \<^verbatim>\<open>KeyError\<close> when \<^verbatim>\<open>g\<close> is absent.\<close>

definition set_add :: "'a \<Rightarrow> 'a list \<Rightarrow> 'a list" where
  "set_add g s = (if g \<in> set s then s else s @ [g])"

record 'a rwav_state =
  remaining_goods :: "'a list"
  bundles :: "'a list list"
  turn_index :: nat
  family_index :: nat

function rwav_loop :: "('a::linorder) family list \<Rightarrow> 'a rwav_state \<Rightarrow> error + 'a rwav_state" where
  "rwav_loop families st =
     (if length (remaining_goods st) > 0 then
        (if family_index st < length families then
           (case choose_good (families ! family_index st) (bundles st ! family_index st)
                   (remaining_goods st) (int (length families)) of
              Inl e \<Rightarrow> Inl e
            | Inr g \<Rightarrow>
                (if g \<in> set (remaining_goods st) then
                   rwav_loop families
                     (st\<lparr>bundles := (bundles st)[family_index st := set_add g (bundles st ! family_index st)],
                         remaining_goods := remove1 g (remaining_goods st),
                         turn_index := turn_index st + 1,
                         family_index := (family_index st + 1) mod length families\<rparr>)
                 else Inl KeyError))
         else Inl IndexError)
      else Inr st)"
  by pat_completeness auto
termination
  by (relation "measure (\<lambda>(families, st). length (remaining_goods st))")
     (auto simp: length_remove1 intro: diff_less)

declare rwav_loop.simps [simp del]

text \<open>
  \<^verbatim>\<open>rwav_protocol.allocate\<close>: every member's target value is set from the fairness
  criterion of its family, then the loop runs. \<open>allocate_run\<close> is the state in which the
  loop ends, \<open>allocate\<close> the list of bundles the function returns.
\<close>

definition set_targets :: "'a family \<Rightarrow> 'a family" where
  "set_targets f =
     f\<lparr>members := map (\<lambda>m. m\<lparr>target_value := fairness_criterion f (total_value (agent m))\<rparr>) (members f)\<rparr>"

definition allocate_run :: "('a::linorder) family list \<Rightarrow> 'a list \<Rightarrow> error + 'a rwav_state" where
  "allocate_run families goods =
     rwav_loop (map set_targets families)
       \<lparr>remaining_goods = remdups goods,
        bundles = map (\<lambda>f. []) families,
        turn_index = 0,
        family_index = 0\<rparr>"

definition allocate :: "('a::linorder) family list \<Rightarrow> 'a list \<Rightarrow> error + 'a list list" where
  "allocate families goods =
     (case allocate_run families goods of Inl e \<Rightarrow> Inl e | Inr st \<Rightarrow> Inr (bundles st))"

section \<open>Enhanced RWAV and the two-thirds protocol\<close>

text \<open>
  In \<^verbatim>\<open>monotone_families.py\<close> a good is a Python string: \<^verbatim>\<open>set(g)\<close> and
  \<^verbatim>\<open>member.value(g)\<close> iterate over its characters, each a string of length one.
\<close>

definition chars :: "string \<Rightarrow> string list" where
  "chars g = map (\<lambda>c. [c]) g"

text \<open>
  Python iterates a set of strings in an order that depends on the hashes of the
  strings, which change from one run to the next. The model takes that order as a
  parameter \<open>set_order\<close>: for a set \<open>s\<close>, a list without duplicates, \<open>set_order s\<close> lists
  the elements of \<open>s\<close> in the order of iteration. \<open>lists_sets\<close> says that it does.
\<close>

definition lists_sets :: "(string list \<Rightarrow> string list) \<Rightarrow> bool" where
  "lists_sets set_order \<longleftrightarrow>
     (\<forall>s. distinct s \<longrightarrow> distinct (set_order s) \<and> set (set_order s) = set s)"

text \<open>
  The loop \<^verbatim>\<open>for g in goods\<close> of \<^verbatim>\<open>allocate_using_enhanced_RWAV\<close>, over the set of the
  goods in the order of iteration. The function returns a pair in the two shortcuts and
  whatever the fallback returns otherwise; both are a list of two bundles here.

  The fallback \<^verbatim>\<open>allocate_using_RWAV\<close> is not defined in \<^verbatim>\<open>monotone_families.py\<close> and is
  not among the sources: it is a parameter of the model. The threshold of a family is
  the float product \<^verbatim>\<open>threshold*family.num_of_members()\<close>.
\<close>

fun enhanced_scan ::
  "(string family list \<Rightarrow> string list \<Rightarrow> error + string list list) \<Rightarrow>
   string family list \<Rightarrow> string list \<Rightarrow> real list \<Rightarrow> string list \<Rightarrow> error + string list list" where
  "enhanced_scan allocate_using_RWAV families goods thresholds [] = allocate_using_RWAV families goods"
| "enhanced_scan allocate_using_RWAV families goods thresholds (g # gs) =
     (let nums = map (\<lambda>family. num_of_members_who_want family g) families in
      if real_of_int (nums ! 0) \<ge> thresholds ! 0 then
        (let bundle1 = remdups (chars g); bundle2 = difference goods bundle1
         in Inr [bundle1, bundle2])
      else if real_of_int (nums ! 1) \<ge> thresholds ! 1 then
        (let bundle2 = remdups (chars g); bundle1 = difference goods bundle2
         in Inr [bundle1, bundle2])
      else enhanced_scan allocate_using_RWAV families goods thresholds gs)"

definition allocate_using_enhanced_RWAV ::
  "(string family list \<Rightarrow> string list \<Rightarrow> error + string list list) \<Rightarrow>
   (string list \<Rightarrow> string list) \<Rightarrow>
   string family list \<Rightarrow> string list \<Rightarrow> real \<Rightarrow> error + string list list" where
  "allocate_using_enhanced_RWAV allocate_using_RWAV set_order families goods threshold =
     (if length families \<noteq> 2 then Inl TypeError
      else (let goods = remdups goods;
                thresholds = map (\<lambda>family. float_mul threshold (real_of_int (num_of_members family)))
                               families
            in enhanced_scan allocate_using_RWAV families goods thresholds (set_order goods)))"

text \<open>
  \<^verbatim>\<open>allocate_twothirds\<close>. The predicates handed to \<^verbatim>\<open>num_of_members\<close>:
  \<^verbatim>\<open>member.value(g)>0 and member.value(bundle)==n\<close>, where \<^verbatim>\<open>and\<close> evaluates its second
  operand only when the first is true.
\<close>

definition wants_and_holds :: "string \<Rightarrow> string list \<Rightarrow> int \<Rightarrow> string member \<Rightarrow> error + bool" where
  "wants_and_holds g bundle n m =
     (case agent_value (agent m) (chars g) of
        Inl e \<Rightarrow> Inl e
      | Inr v \<Rightarrow>
          (if v > 0 then
             (case agent_value (agent m) bundle of Inl e \<Rightarrow> Inl e | Inr v' \<Rightarrow> Inr (v' = n))
           else Inr False))"

text \<open>
  The first inner loop, over a snapshot of \<^verbatim>\<open>bundles[0]\<close>, and the second, over a
  snapshot of \<^verbatim>\<open>bundles[1]\<close>; the snapshot \<^verbatim>\<open>list(bundles[i])\<close> is given as a list. The
  state is the two bundles and the flag \<^verbatim>\<open>change\<close>.
\<close>

fun twothirds_pass1 ::
  "string family list \<Rightarrow> string list \<Rightarrow> string list \<times> string list \<times> bool \<Rightarrow>
   error + string list \<times> string list \<times> bool" where
  "twothirds_pass1 families [] st = Inr st"
| "twothirds_pass1 families (g # gs) (b0, b1, change) =
     (case num_of_members_if (families ! 1) (wants_and_holds g b1 0) of
        Inl e \<Rightarrow> Inl e
      | Inr poor_in_2 \<Rightarrow>
          (case num_of_members_if (families ! 0) (wants_and_holds g b0 1) of
             Inl e \<Rightarrow> Inl e
           | Inr poor_in_1 \<Rightarrow>
               (if poor_in_2 > poor_in_1 then
                  (if g \<in> set b0
                   then twothirds_pass1 families gs (remove1 g b0, set_add g b1, True)
                   else Inl KeyError)
                else twothirds_pass1 families gs (b0, b1, change))))"

fun twothirds_pass2 ::
  "string family list \<Rightarrow> string list \<Rightarrow> string list \<times> string list \<times> bool \<Rightarrow>
   error + string list \<times> string list \<times> bool" where
  "twothirds_pass2 families [] st = Inr st"
| "twothirds_pass2 families (g # gs) (b0, b1, change) =
     (case num_of_members_if (families ! 0) (wants_and_holds g b0 0) of
        Inl e \<Rightarrow> Inl e
      | Inr poor_in_1 \<Rightarrow>
          (case num_of_members_if (families ! 1) (wants_and_holds g b1 1) of
             Inl e \<Rightarrow> Inl e
           | Inr poor_in_2 \<Rightarrow>
               (if poor_in_1 > poor_in_2 then
                  (if g \<in> set b1
                   then twothirds_pass2 families gs (set_add g b0, remove1 g b1, True)
                   else Inl KeyError)
                else twothirds_pass2 families gs (b0, b1, change))))"

text \<open>
  The outer loop \<^verbatim>\<open>for iteration in range(num_of_iterations)\<close> with its \<^verbatim>\<open>break\<close>. Each
  snapshot lists a bundle in the order in which Python iterates the set.
\<close>

fun twothirds_loop ::
  "(string list \<Rightarrow> string list) \<Rightarrow> nat \<Rightarrow> string family list \<Rightarrow> string list \<times> string list \<Rightarrow>
   error + string list \<times> string list" where
  "twothirds_loop set_order 0 families st = Inr st"
| "twothirds_loop set_order (Suc n) families (b0, b1) =
     (case twothirds_pass1 families (set_order b0) (b0, b1, False) of
        Inl e \<Rightarrow> Inl e
      | Inr (b0', b1', change) \<Rightarrow>
          (case twothirds_pass2 families (set_order b1') (b0', b1', change) of
             Inl e \<Rightarrow> Inl e
           | Inr (b0'', b1'', change') \<Rightarrow>
               (if \<not> change' then Inr (b0'', b1'')
                else twothirds_loop set_order n families (b0'', b1''))))"

definition allocate_twothirds ::
  "(string list \<Rightarrow> string list) \<Rightarrow> string family list \<Rightarrow> string list \<Rightarrow> error + string list list" where
  "allocate_twothirds set_order families goods =
     (if length families \<noteq> 2 then Inl TypeError
      else (let goods = remdups goods;
                num_of_members = sum_list (map num_of_members families);
                num_of_iterations = 2 * num_of_members
            in (case twothirds_loop set_order (nat num_of_iterations) families ([], goods) of
                  Inl e \<Rightarrow> Inl e
                | Inr (b0, b1) \<Rightarrow> Inr [b0, b1])))"


section \<open>Invariants and the examples of the docstrings\<close>

text \<open>
  The turns \<open>t\<close> before turn \<open>T\<close> that belong to family \<open>i\<close> when \<open>n\<close> families take turns in
  round-robin order, the first family first.
\<close>

definition turns_of :: "nat \<Rightarrow> nat \<Rightarrow> nat \<Rightarrow> nat set" where
  "turns_of n T i = {t. t < T \<and> t mod n = i}"

text \<open>
  The invariant of the RWAV loop for the goods \<open>G\<close>, \<open>n\<close> families and \<open>N\<close> goods in all:
  the bundles and the remaining goods are pairwise disjoint sets, together they are
  \<open>G\<close>, the turns taken and the goods remaining add up to \<open>N\<close>, the pointer is the number
  of turns taken modulo \<open>n\<close>, and each family holds one good for each of its turns.
\<close>

definition rwav_inv :: "'a set \<Rightarrow> nat \<Rightarrow> nat \<Rightarrow> 'a rwav_state \<Rightarrow> bool" where
  "rwav_inv G n N st \<longleftrightarrow>
     length (bundles st) = n
     \<and> distinct (remaining_goods st)
     \<and> (\<forall>i<n. distinct (bundles st ! i))
     \<and> (\<forall>i<n. set (bundles st ! i) \<inter> set (remaining_goods st) = {})
     \<and> (\<forall>i<n. \<forall>j<n. i \<noteq> j \<longrightarrow> set (bundles st ! i) \<inter> set (bundles st ! j) = {})
     \<and> (\<Union>i<n. set (bundles st ! i)) \<union> set (remaining_goods st) = G
     \<and> turn_index st + length (remaining_goods st) = N
     \<and> family_index st = turn_index st mod n
     \<and> (\<forall>i<n. length (bundles st ! i) = card (turns_of n (turn_index st) i))"

fun is_binary :: "'a agent \<Rightarrow> bool" where
  "is_binary (BinaryAgent t c d) = True"
| "is_binary _ = False"

text \<open>
  The families of the docstring of \<^verbatim>\<open>rwav_protocol.allocate\<close>. The module
  \<^verbatim>\<open>fairness_criteria\<close> is not among the sources; the criterion is the one that the
  docstring of \<^verbatim>\<open>monotone_families.choose_good\<close> writes out,
  \<^verbatim>\<open>lambda r: 1 if r>=2 else 0\<close>.
\<close>

definition fairness_1_of_best_2 :: "int \<Rightarrow> int" where
  "fairness_1_of_best_2 r = (if r \<ge> 2 then 1 else 0)"

definition binary_member :: "'a list \<Rightarrow> int \<Rightarrow> 'a member" where
  "binary_member desired n = \<lparr>agent = mk_BinaryAgent desired n, target_value = 0\<rparr>"

definition family1 :: "string family" where
  "family1 = \<lparr>members = [binary_member [''w'', ''x''] 1, binary_member [''x'', ''y''] 2,
                          binary_member [''y'', ''z''] 3, binary_member [''z'', ''w''] 4],
              fairness_criterion = fairness_1_of_best_2\<rparr>"

definition family2 :: "string family" where
  "family2 = \<lparr>members = [binary_member [''w'', ''z''] 2, binary_member [''z'', ''y''] 3],
              fairness_criterion = fairness_1_of_best_2\<rparr>"

text \<open>
  The invariant of the two-thirds protocol for the goods \<open>G\<close>: the two bundles are
  disjoint sets that together are \<open>G\<close>. The family is the one of the docstring of
  \<^verbatim>\<open>allocate_twothirds\<close>.
\<close>

definition twothirds_inv :: "string set \<Rightarrow> string list \<times> string list \<Rightarrow> bool" where
  "twothirds_inv G st \<longleftrightarrow>
     distinct (fst st) \<and> distinct (snd st) \<and> set (fst st) \<inter> set (snd st) = {}
     \<and> set (fst st) \<union> set (snd st) = G"

definition twothirds_family :: "string family" where
  "twothirds_family = \<lparr>members = [binary_member [''w'', ''x''] 1, binary_member [''y'', ''z''] 1],
                       fairness_criterion = fairness_1_of_best_2\<rparr>"

text \<open>A family of one additive agent that values the good x alone, \<^verbatim>\<open>AdditiveAgent({"x": 1})\<close>.\<close>

definition additive_family :: "string family" where
  "additive_family = \<lparr>members = [\<lparr>agent = mk_AdditiveAgent [(''x'', 1)] 1, target_value = 0\<rparr>],
                      fairness_criterion = fairness_1_of_best_2\<rparr>"



definition enhanced_family1 :: "string family" where
  "enhanced_family1 = \<lparr>members = [binary_member [''w'', ''x''] 1, binary_member [''x'', ''y''] 3,
                                   binary_member [''y'', ''z''] 3, binary_member [''w'', ''v''] 3],
                       fairness_criterion = fairness_1_of_best_2\<rparr>"

definition enhanced_family2 :: "string family" where
  "enhanced_family2 = \<lparr>members = [binary_member [''w'', ''x''] 5, binary_member [''y'', ''z''] 5],
                       fairness_criterion = fairness_1_of_best_2\<rparr>"

text \<open>
  What one partition of the rest contributes to the partitions of \<^verbatim>\<open>first\<close> and the
  rest: \<^verbatim>\<open>first\<close> inserted into each part in turn, then \<^verbatim>\<open>first\<close> as a part of its own.
\<close>

definition add_first :: "'a \<Rightarrow> 'a list list \<Rightarrow> 'a list list list" where
  "add_first first smaller = insert_first first smaller @ [[first] # smaller]"

text \<open>
  A yielded partition, a list of lists, read as a set of sets.
\<close>

definition parts_of :: "'a list list \<Rightarrow> 'a set set" where
  "parts_of p = set ` set p"

section \<open>Rounding to the nearest double\<close>

lemma round_half_even_of_int [simp]: "round_half_even (of_int n) = n"
  by (simp add: round_half_even_def)

lemma round_half_even_le: "x \<le> of_int b \<Longrightarrow> round_half_even x \<le> b"
proof -
  assume x: "x \<le> of_int b"
  have f: "\<lfloor>x\<rfloor> \<le> b" using x by (simp add: floor_le_iff)
  have "\<lfloor>x\<rfloor> + 1 \<le> b" if "x - of_int \<lfloor>x\<rfloor> \<ge> 1 / 2"
  proof -
    have "of_int \<lfloor>x\<rfloor> < x" using that by linarith
    then have "of_int \<lfloor>x\<rfloor> < (of_int b :: real)" using x by linarith
    then show ?thesis by simp
  qed
  with f show ?thesis by (auto simp: round_half_even_def Let_def)
qed

lemma round_half_even_ge: "of_int a \<le> x \<Longrightarrow> a \<le> round_half_even x"
proof -
  assume "of_int a \<le> x"
  then have "a \<le> \<lfloor>x\<rfloor>" by (simp add: le_floor_iff)
  then show ?thesis by (auto simp: round_half_even_def Let_def)
qed

lemma floor_log2_less:
  assumes "0 < x" "x < 2 powr of_int j"
  shows "\<lfloor>log 2 x\<rfloor> < j"
proof -
  have "log 2 x < of_int j" using assms by (simp add: log_less_iff)
  then show ?thesis by (simp add: floor_less_iff)
qed

lemma floor_log2_bounds:
  assumes "0 < x"
  shows "2 powr of_int \<lfloor>log 2 x\<rfloor> \<le> x" "x < 2 powr (of_int \<lfloor>log 2 x\<rfloor> + 1)"
  using floor_log_eq_powr_iff [of x 2 "\<lfloor>log 2 x\<rfloor>"] assms by simp_all

text \<open>A number with a 53-bit significand and an exponent in range is a double.\<close>

lemma round_double_exact:
  assumes "x = of_int m * 2 powr of_int k" "\<bar>m\<bar> < 2 ^ 53" "- 1074 \<le> k"
  shows "round_double x = x"
proof (cases "x = 0")
  case True
  then show ?thesis by (simp add: round_double_def)
next
  case False
  define e0 where "e0 = \<lfloor>log 2 \<bar>x\<bar>\<rfloor>"
  define e where "e = max e0 (- 1022)"
  define q :: real where "q = 2 powr (of_int e - 52)"
  have pos: "0 < \<bar>x\<bar>" using False by simp
  have ax: "\<bar>x\<bar> = of_int \<bar>m\<bar> * 2 powr of_int k" by (simp add: assms(1) abs_mult)
  have "of_int \<bar>m\<bar> < (2::real) ^ 53" using assms(2) by (metis of_int_less_numeral_power_cancel_iff)
  then have "\<bar>x\<bar> < 2 ^ 53 * 2 powr of_int k" unfolding ax by simp
  also have "\<dots> = 2 powr of_int (53 + k)" by (simp add: powr_add)
  finally have "e0 < 53 + k" unfolding e0_def by (rule floor_log2_less [OF pos])
  then have ek: "e - 52 \<le> k" using assms(3) by (simp add: e_def)
  define d where "d = nat (k - (e - 52))"
  have kd: "of_int k = (of_int e - 52) + real d" using ek by (simp add: d_def)
  have "(2::real) powr of_int k = q * 2 ^ d" unfolding kd q_def by (simp add: powr_add powr_realpow)
  then have xq: "\<bar>x\<bar> / q = of_int (\<bar>m\<bar> * 2 ^ d)" unfolding ax by (simp add: q_def)
  have "round_double x = sgn x * q * of_int (round_half_even (\<bar>x\<bar> / q))"
    using False by (simp add: round_double_def Let_def e_def e0_def q_def)
  also have "\<dots> = sgn x * q * (\<bar>x\<bar> / q)" unfolding xq by (simp only: round_half_even_of_int)
  also have "\<dots> = sgn x * \<bar>x\<bar>" by (simp add: q_def)
  also have "\<dots> = x" by (simp add: sgn_mult_abs)
  finally show ?thesis .
qed

lemma round_double_le_pow2:
  assumes "0 \<le> x" "x \<le> 2 powr of_int j" "- 1021 \<le> j"
  shows "0 \<le> round_double x \<and> round_double x \<le> 2 powr of_int j"
proof (cases "x = 0 \<or> x = 2 powr of_int j")
  case True
  then show ?thesis
  proof
    assume "x = 0" then show ?thesis by (simp add: round_double_def)
  next
    assume x: "x = 2 powr of_int j"
    have "round_double x = x" by (rule round_double_exact [where m = 1 and k = j]) (use x assms(3) in simp_all)
    then show ?thesis using x by simp
  qed
next
  case False
  then have pos: "0 < x" and lt: "x < 2 powr of_int j" using assms by auto
  define e0 where "e0 = \<lfloor>log 2 \<bar>x\<bar>\<rfloor>"
  define e where "e = max e0 (- 1022)"
  define q :: real where "q = 2 powr (of_int e - 52)"
  have qpos: "0 < q" by (simp add: q_def)
  have "e0 < j" unfolding e0_def using pos lt by (intro floor_log2_less) simp_all
  then have ej: "e + 1 \<le> j" using assms(3) by (simp add: e_def)
  have "x < 2 powr (of_int e0 + 1)" using floor_log2_bounds(2) [of "\<bar>x\<bar>"] pos by (simp add: e0_def)
  also have "\<dots> \<le> 2 powr (of_int e + 1)" by (simp add: e_def)
  finally have xe: "x < 2 powr (of_int e + 1)" .
  have "(2::real) powr (of_int e + 1) = q * 2 ^ 53"
  proof -
    have "of_int e + 1 = (of_int e - 52) + (53::real)" by simp
    then have "(2::real) powr (of_int e + 1) = 2 powr (of_int e - 52) * 2 powr (53::real)" by (simp only: powr_add)
    then show ?thesis by (simp add: q_def)
  qed
  then have "x / q \<le> 2 ^ 53" using xe qpos by (simp add: field_simps)
  then have "x / q \<le> of_int (2 ^ 53)" by simp
  then have hi: "round_half_even (x / q) \<le> 2 ^ 53" by (rule round_half_even_le)
  have "of_int 0 \<le> x / q" using pos qpos by simp
  then have lo: "0 \<le> round_half_even (x / q)" by (rule round_half_even_ge)
  have rd: "round_double x = q * of_int (round_half_even (x / q))"
    using pos by (simp add: round_double_def Let_def e_def e0_def q_def)
  have "q * of_int (round_half_even (x / q)) \<le> q * 2 ^ 53"
    using hi qpos by (simp add: of_int_le_numeral_power_cancel_iff)
  also have "\<dots> = 2 powr (of_int e + 1)" using \<open>(2::real) powr (of_int e + 1) = q * 2 ^ 53\<close> by simp
  also have "\<dots> \<le> 2 powr of_int j" using ej by simp
  finally have "round_double x \<le> 2 powr of_int j" unfolding rd .
  moreover have "0 \<le> round_double x" unfolding rd using lo qpos by simp
  ultimately show ?thesis by simp
qed

lemma round_double_eval:
  assumes "2 powr of_int e \<le> x" "x < 2 powr (of_int e + 1)" "- 1022 \<le> e"
  shows "round_double x = 2 powr (of_int e - 52) * of_int (round_half_even (x / 2 powr (of_int e - 52)))"
proof -
  have pos: "0 < x" using assms(1) by (smt (verit) powr_gt_zero)
  have "\<lfloor>log 2 x\<rfloor> = e" using floor_log_eq_powr_iff [of x 2 e] pos assms(1,2) by simp
  then show ?thesis using pos assms(3) by (simp add: round_double_def Let_def)
qed

lemma round_double_tie: "round_double (2 - 1 / 2 ^ 53) = 2"
proof -
  have "round_double (2 - 1 / 2 ^ 53)
      = 2 powr (of_int 0 - 52) * of_int (round_half_even ((2 - 1 / 2 ^ 53) / 2 powr (of_int 0 - 52)))"
    by (rule round_double_eval) simp_all
  also have "(2 - 1 / 2 ^ 53) / 2 powr (of_int 0 - 52) = (18014398509481983 / 2 :: real)"
    by (simp add: powr_minus field_simps)
  also have "round_half_even (18014398509481983 / 2) = 9007199254740992"
    by (simp add: round_half_even_def)
  finally show ?thesis by (simp add: powr_minus)
qed

lemma round_double_grid:
  assumes "0 \<le> m" "m \<le> 2 ^ n" "n \<le> 53" "k \<le> (1::nat)"
  shows "round_double (of_int m * 2 ^ k / 2 ^ n) = of_int m * 2 ^ k / 2 ^ n"
proof (cases "m = 2 ^ n")
  case True
  have "round_double (of_int m * 2 ^ k / 2 ^ n) = round_double (of_int 1 * 2 powr of_int (int k))"
    by (simp add: True powr_realpow)
  also have "\<dots> = of_int 1 * 2 powr of_int (int k)" by (rule round_double_exact [OF refl]) simp_all
  finally show ?thesis by (simp add: True powr_realpow)
next
  case False
  then have "m < 2 ^ n" using assms(2) by simp
  also have "(2::int) ^ n \<le> 2 ^ 53" using assms(3) by (intro power_increasing) simp_all
  finally have m: "\<bar>m\<bar> < 2 ^ 53" using assms(1) by simp
  have e: "real_of_int m * 2 ^ k / 2 ^ n = real_of_int m * 2 powr of_int (int k - int n)"
    by (simp add: powr_diff powr_realpow)
  have "- 1074 \<le> int k - int n" using assms(3) by simp
  from round_double_exact [OF e m this] show ?thesis .
qed

lemma exact_mean:
  assumes "on_grid n a" "on_grid n b" "n \<le> 52"
  shows "float_div (float_add a b) 2 = (a + b) / 2" "on_grid (Suc n) ((a + b) / 2)"
proof -
  from assms obtain ma mb :: int where ma: "0 \<le> ma" "ma \<le> 2 ^ n" "a = of_int ma / 2 ^ n"
    and mb: "0 \<le> mb" "mb \<le> 2 ^ n" "b = of_int mb / 2 ^ n" by (auto simp: on_grid_def)
  have s: "0 \<le> ma + mb" "ma + mb \<le> 2 ^ Suc n" using ma mb by simp_all
  have ab: "a + b = of_int (ma + mb) * 2 ^ 1 / 2 ^ Suc n" by (simp add: ma mb add_divide_distrib)
  have h: "(a + b) / 2 = of_int (ma + mb) * 2 ^ 0 / 2 ^ Suc n" by (simp add: ma mb add_divide_distrib)
  have 1: "float_add a b = a + b"
    unfolding float_add_def ab by (rule round_double_grid [OF s]) (use assms(3) in simp_all)
  have 2: "round_double ((a + b) / 2) = (a + b) / 2"
    unfolding h by (rule round_double_grid [OF s]) (use assms(3) in simp_all)
  show "float_div (float_add a b) 2 = (a + b) / 2" by (simp add: float_div_def 1 2)
  have h2: "(a + b) / 2 = of_int (ma + mb) / 2 ^ Suc n" by (simp add: ma mb add_divide_distrib)
  show "on_grid (Suc n) ((a + b) / 2)" unfolding on_grid_def using s h2 by blast
qed

lemma on_grid_mono: "on_grid n x \<Longrightarrow> n \<le> n' \<Longrightarrow> on_grid n' x"
proof -
  assume "on_grid n x" and le: "n \<le> n'"
  then obtain m :: int where m: "0 \<le> m" "m \<le> 2 ^ n" "x = of_int m / 2 ^ n" by (auto simp: on_grid_def)
  obtain d where d: "n' = n + d" using le by (auto simp: le_iff_add)
  have "x = of_int (m * 2 ^ d) / 2 ^ n'" by (simp add: m d power_add)
  moreover have "m * 2 ^ d \<le> 2 ^ n'" using m by (simp add: d power_add)
  moreover have "0 \<le> m * 2 ^ d" using m by simp
  ultimately show "on_grid n' x" unfolding on_grid_def by blast
qed

lemma on_grid_0_1: "on_grid n 0" "on_grid n 1"
  unfolding on_grid_def by (rule exI [of _ 0], simp) (rule exI [of _ "2 ^ n"], simp)

lemma mf_balance_on_grid: "r \<le> 53 \<Longrightarrow> on_grid (nat r) (mf_balance r s)"
proof (induction r s rule: mf_balance.induct)
  case (1 r s)
  show ?case
  proof (cases "s \<le> 0 \<or> s > r")
    case True
    then show ?thesis by (auto simp: mf_balance.simps [of r s] on_grid_0_1)
  next
    case False
    then have a: "\<not> s \<le> 0" "\<not> r < s" by auto
    then have r1: "1 \<le> r" by simp
    have le: "r - 1 \<le> 53" "r - 2 \<le> 53" using "1.prems" by simp_all
    note ih = "1.IH" (1,2) [OF a le(1)] "1.IH" (3) [OF a refl le(2)]
    have n: "nat (r - 1) \<le> 52" using "1.prems" by simp
    have S: "Suc (nat (r - 1)) = nat r" using r1 by simp
    from exact_mean [OF ih(1,2) n]
    have v1: "float_div (float_add (mf_balance (r - 1) s) (mf_balance (r - 1) (s - 1))) 2
                = (mf_balance (r - 1) s + mf_balance (r - 1) (s - 1)) / 2"
      and g1: "on_grid (nat r) ((mf_balance (r - 1) s + mf_balance (r - 1) (s - 1)) / 2)"
      by (simp_all only: S)
    have g2: "on_grid (nat r) (mf_balance (r - 2) (s - 1))"
      using ih(3) by (rule on_grid_mono) simp
    show ?thesis
      using a g1 g2 by (simp add: mf_balance.simps [of r s] Let_def v1 min_def)
  qed
qed

lemma mf_balance_exact:
  assumes "r \<le> 53"
  shows "mf_balance r s =
       (if s \<le> 0 then 1
        else if s > r then 0
        else min ((mf_balance (r - 1) s + mf_balance (r - 1) (s - 1)) / 2)
                 (mf_balance (r - 2) (s - 1)))"
proof (cases "s \<le> 0 \<or> s > r")
  case True
  then show ?thesis by (auto simp: mf_balance.simps [of r s])
next
  case False
  then have a: "\<not> s \<le> 0" "\<not> r < s" by auto
  have le: "r - 1 \<le> 53" using assms by simp
  have n: "nat (r - 1) \<le> 52" using assms by simp
  have v1: "float_div (float_add (mf_balance (r - 1) s) (mf_balance (r - 1) (s - 1))) 2
                = (mf_balance (r - 1) s + mf_balance (r - 1) (s - 1)) / 2"
    by (rule exact_mean(1) [OF mf_balance_on_grid [OF le] mf_balance_on_grid [OF le] n])
  show ?thesis using a by (simp add: mf_balance.simps [of r s] Let_def v1)
qed

lemma mf_balance_examples:
  "mf_balance 0 0 = 1" "mf_balance 1 1 = 1 / 2" "mf_balance 1 0 = 1"
  "mf_balance 0 1 = 0" "mf_balance 3 2 = 3 / 8"
  by (simp_all add: mf_balance_exact)

lemma mf_balance_range: "0 \<le> mf_balance r s \<and> mf_balance r s \<le> 1"
proof (induction r s rule: mf_balance.induct)
  case (1 r s)
  show ?case
  proof (cases "s \<le> 0 \<or> s > r")
    case True
    then show ?thesis by (auto simp: mf_balance.simps [of r s])
  next
    case False
    then have a: "\<not> s \<le> 0" "\<not> r < s" by auto
    note ih = "1.IH" (1,2) [OF a] "1.IH" (3) [OF a refl]
    let ?a = "mf_balance (r - 1) s" and ?b = "mf_balance (r - 1) (s - 1)"
    have "0 \<le> ?a + ?b" "?a + ?b \<le> 2 powr of_int 1" using ih by simp_all
    from round_double_le_pow2 [OF this] have s: "0 \<le> float_add ?a ?b" "float_add ?a ?b \<le> 2"
      by (simp_all add: float_add_def)
    then have "0 \<le> float_add ?a ?b / 2" "float_add ?a ?b / 2 \<le> 2 powr of_int 0" by simp_all
    from round_double_le_pow2 [OF this] have "0 \<le> float_div (float_add ?a ?b) 2" "float_div (float_add ?a ?b) 2 \<le> 1"
      by (simp_all add: float_div_def)
    then show ?thesis
      using a ih by (simp add: mf_balance.simps [of r s] Let_def min_def)
  qed
qed

lemma mf_balance_s1: "r \<le> 53 \<Longrightarrow> mf_balance (int r) 1 = 1 - 1 / 2 ^ r"
proof (induction r)
  case 0
  then show ?case by (simp add: mf_balance.simps)
next
  case (Suc r)
  then have ih: "mf_balance (int r) 1 = 1 - 1 / 2 ^ r" by simp
  have z: "mf_balance (int r) 0 = 1" "mf_balance (int r - 1) 0 = 1" by (simp_all add: mf_balance.simps)
  have "int (Suc r) \<le> 53" using Suc.prems by simp
  from mf_balance_exact [OF this, of 1] show ?case
    by (simp add: ih z min_def field_simps)
qed

lemma mf_balance_54_1: "mf_balance 54 1 = 1"
proof -
  have a: "mf_balance 53 1 = 1 - 1 / 2 ^ 53" using mf_balance_s1 [of 53] by simp
  have z: "mf_balance 53 0 = 1" "mf_balance 52 0 = 1" by (simp_all add: mf_balance.simps)
  have "float_add (1 - 1 / 2 ^ 53) 1 = 2"
    using round_double_tie by (simp add: float_add_def)
  moreover have "float_div 2 2 = 1"
    using round_double_exact [of 1 1 0] by (simp add: float_div_def)
  ultimately show ?thesis
    by (simp add: mf_balance.simps [of 54 1] a z Let_def)
qed

text \<open>
  A multiple of \<open>2 ^ - 10\<close> below \<open>2 ^ 43\<close> is a double: the sums of weights in the
  examples are computed without rounding.
\<close>

lemma round_double_small:
  assumes "x * 2 ^ 10 \<in> \<int>" "\<bar>x * 2 ^ 10\<bar> < 2 ^ 53"
  shows "round_double x = x"
proof -
  from assms(1) obtain m :: int where m: "x * 2 ^ 10 = of_int m" by (auto elim: Ints_cases)
  then have x: "x = of_int m * 2 powr of_int (- 10)" by (simp add: powr_minus field_simps)
  from assms(2) m have "real_of_int \<bar>m\<bar> < 2 ^ 53" by simp
  then have "\<bar>m\<bar> < 2 ^ 53" by (metis of_int_less_numeral_power_cancel_iff)
  with x show ?thesis by (intro round_double_exact [of x m "- 10"]) simp_all
qed

section \<open>The recurrence: values, range and the unsupported case\<close>

lemma balance_two: "balance r s 2 = Inr (mf_balance r s)"
proof (induction r s rule: mf_balance.induct)
  case (1 r s)
  show ?case
  proof (cases "s \<le> 0 \<or> s > r")
    case True
    then show ?thesis
      by (auto simp: balance.simps [of r s 2] mf_balance.simps [of r s])
  next
    case False
    then have a: "\<not> s \<le> 0" "\<not> r < s" by auto
    note ih = "1.IH" (1,2) [OF a] "1.IH" (3) [OF a refl]
    show ?thesis
      using a ih by (simp add: balance.simps [of r s 2] mf_balance.simps [of r s] Let_def)
  qed
qed

lemma mf_balance_rounded:
  "mf_balance r s =
     (if s \<le> 0 then 1
      else if s > r then 0
      else min (float_div (float_add (mf_balance (r - 1) s) (mf_balance (r - 1) (s - 1))) 2)
               (mf_balance (r - 2) (s - 1)))"
  by (subst mf_balance.simps) (simp add: Let_def)

text \<open>
  Claim C1, as amended. With two families, the balance of \<^verbatim>\<open>rwav_protocol.py\<close> never
  fails and is the balance of \<^verbatim>\<open>monotone_families.py\<close>, which is 1 when \<open>s \<le> 0\<close>, 0 when
  \<open>s > r\<close>, and otherwise the smaller of the balance at \<open>(r-2, s-1)\<close> and the mean of the
  balances at \<open>(r-1, s)\<close> and \<open>(r-1, s-1)\<close>, the sum and its half each rounded to the
  nearest double. Up to \<open>r = 53\<close> nothing is rounded and the mean is exact. The five
  examples of the docstring have the values 1, 0.5, 1, 0 and 0.375.
\<close>

theorem balance_recurrence:
  "balance r s 2 = Inr (mf_balance r s)
   \<and> mf_balance r s =
       (if s \<le> 0 then 1
        else if s > r then 0
        else min (float_div (float_add (mf_balance (r - 1) s) (mf_balance (r - 1) (s - 1))) 2)
                 (mf_balance (r - 2) (s - 1)))
   \<and> (r \<le> 53 \<longrightarrow>
        mf_balance r s =
          (if s \<le> 0 then 1
           else if s > r then 0
           else min ((mf_balance (r - 1) s + mf_balance (r - 1) (s - 1)) / 2)
                    (mf_balance (r - 2) (s - 1))))
   \<and> balance 0 0 2 = Inr 1 \<and> balance 1 1 2 = Inr (1 / 2) \<and> balance 1 0 2 = Inr 1
   \<and> balance 0 1 2 = Inr 0 \<and> balance 3 2 2 = Inr (3 / 8)"
  using mf_balance_rounded [of r s] mf_balance_exact [of r s]
  by (simp add: balance_two mf_balance_examples)

theorem balance_recurrence_witness:
  "balance 3 2 2 = Inr (mf_balance 3 2)
   \<and> mf_balance 3 2 = min ((mf_balance 2 2 + mf_balance 2 1) / 2) (mf_balance 1 1)
   \<and> balance 3 2 2 = Inr (3 / 8)"
proof -
  from balance_recurrence [of 3 2]
  have a: "balance 3 2 2 = Inr (mf_balance 3 2)"
    and c: "(3::int) \<le> 53 \<longrightarrow>
        mf_balance 3 2 =
          (if (2::int) \<le> 0 then 1
           else if (2::int) > 3 then 0
           else min ((mf_balance (3 - 1) 2 + mf_balance (3 - 1) (2 - 1)) / 2)
                    (mf_balance (3 - 2) (2 - 1)))"
    and e: "balance 3 2 2 = Inr (3 / 8)" by blast+
  from c have "mf_balance 3 2 = min ((mf_balance 2 2 + mf_balance 2 1) / 2) (mf_balance 1 1)"
    by simp
  with a e show ?thesis by blast
qed

text \<open>
  The claim as stated, with the exact mean, fails from \<open>r = 54\<close> on: the balances at
  \<open>(53, 1)\<close> and \<open>(53, 0)\<close> are \<open>1 - 2 ^ -53\<close> and 1, their sum is rounded to 2, and the
  balance at \<open>(54, 1)\<close> is 1, not \<open>1 - 2 ^ -54\<close>.
\<close>

theorem balance_recurrence_counterexample:
  "balance 54 1 2 = Inr 1 \<and> balance 53 1 2 = Inr (1 - 1 / 2 ^ 53)
   \<and> balance 53 0 2 = Inr 1 \<and> balance 52 0 2 = Inr 1
   \<and> min (((1 - 1 / 2 ^ 53) + 1) / 2) 1 \<noteq> (1::real)"
proof -
  have "mf_balance 53 1 = 1 - 1 / 2 ^ 53" using mf_balance_s1 [of 53] by simp
  moreover have "mf_balance 53 0 = 1" "mf_balance 52 0 = 1" by (simp_all add: mf_balance.simps)
  ultimately show ?thesis by (simp add: balance_two mf_balance_54_1)
qed

text \<open>
  Claim C7. With two families the balance is a number between 0 and 1, for all integers
  \<open>r\<close> and \<open>s\<close>, the non-negative ones among them.
\<close>

theorem balance_in_unit_interval:
  "\<exists>b. balance r s 2 = Inr b \<and> 0 \<le> b \<and> b \<le> 1"
  by (simp add: balance_two mf_balance_range)

text \<open>
  Claim C8, as amended. The base cases come before the test of \<open>k\<close>: with more than two
  families and \<open>s > 1\<close>, the balance is 0 when \<open>s > r\<close>, and the call fails with
  \<^verbatim>\<open>ValueError\<close> when \<open>s \<le> r\<close>.
\<close>

theorem balance_unsupported:
  "2 < k \<Longrightarrow> 1 < s \<Longrightarrow> balance r s k = (if s > r then Inr 0 else Inl ValueError)"
  by (simp add: balance.simps [of r s k])

theorem balance_unsupported_witness: "balance 3 2 3 = Inl ValueError"
  using balance_unsupported [of 3 2 3] by simp

text \<open>The claim as stated fails where \<open>s > r\<close>: no error is raised there.\<close>

theorem balance_unsupported_counterexample: "balance 0 2 3 = Inr 0"
  by (simp add: balance.simps)

section \<open>Partitions into at most c parts\<close>

text \<open>
  Claim C4. The recursion of \<^verbatim>\<open>partitions_to_at_most_c\<close> runs over the unrestricted
  \<^verbatim>\<open>partitions\<close> of the rest, so the bound \<open>c\<close> only prunes the last singleton: for
  \<open>c = 1\<close> the generator yields two partitions of \<open>[1, 2, 3]\<close> that have two parts.
\<close>

theorem partitions_to_at_most_c_exceeds:
  "partitions_to_at_most_c [1::nat, 2, 3] 1 = Inr [[[1, 2, 3]], [[1, 2], [3]], [[2], [1, 3]]]"
  by (simp add: insert_first_def upt_rec)

section \<open>Valuations: monotonicity and the values except c goods\<close>

lemma additive_weight_nonneg:
  "list_all (\<lambda>(g, v). 0 \<le> v) m \<Longrightarrow> map_of m g \<noteq> None \<Longrightarrow> 0 \<le> the (map_of m g)"
proof -
  assume a: "list_all (\<lambda>(g, v). 0 \<le> v) m" and "map_of m g \<noteq> None"
  then obtain y where y: "map_of m g = Some y" by auto
  then have "(g, y) \<in> set m" by (rule map_of_SomeD)
  with a y show ?thesis by (auto simp: list_all_iff)
qed

lemma traverse_Inr_set:
  "traverse f xs = Inr ys \<Longrightarrow> y \<in> set ys \<Longrightarrow> \<exists>x\<in>set xs. f x = Inr y"
  by (induction xs arbitrary: ys) (auto split: sum.splits)

lemma traverse_Inr_length: "traverse f xs = Inr ys \<Longrightarrow> length ys = length xs"
  by (induction xs arbitrary: ys) (auto split: sum.splits)

lemma fold_min_le: "fold min xs (x::int) \<le> x"
proof (induction xs arbitrary: x)
  case (Cons a xs)
  have "fold min xs (min a x) \<le> min a x" by (rule Cons.IH)
  then show ?case by simp
qed simp

lemma fold_max_ge: "x \<le> fold max xs (x::int)"
proof (induction xs arbitrary: x)
  case (Cons a xs)
  have "max a x \<le> fold max xs (max a x)" by (rule Cons.IH)
  then show ?case by simp
qed simp

lemma fold_max_in: "fold max xs (x::int) \<in> set (x # xs)"
  by (induction xs arbitrary: x) (auto simp: max_def)

lemma fold_min_in: "fold min xs (x::int) \<in> set (x # xs)"
  by (induction xs arbitrary: x) (auto simp: min_def)

text \<open>
  Claim C9, as amended. No constructor validates its argument, so the value of a bundle
  grows with the bundle for every binary agent, for an additive agent whose weights are
  all non-negative, and for a monotone agent whose table is itself monotone
  (\<open>monotone_valuation\<close>); \<open>A\<close> and \<open>B\<close> are sets, lists without duplicates.
\<close>

theorem value_mono:
  assumes "monotone_valuation a" "distinct A" "distinct B" "set A \<subseteq> set B"
    "agent_value a A = Inr va" "agent_value a B = Inr vb"
  shows "va \<le> vb"
proof (cases a)
  case (MonotoneAgent t c m)
  with assms show ?thesis by (auto split: option.splits)
next
  case (AdditiveAgent t c m d)
  with assms have ok: "\<forall>g\<in>set B. map_of m g \<noteq> None"
    and va: "va = sum_list (map (\<lambda>g. the (map_of m g)) A)"
    and vb: "vb = sum_list (map (\<lambda>g. the (map_of m g)) B)"
    and nn: "list_all (\<lambda>(g, v). 0 \<le> v) m"
    by (auto simp: list_all_iff split: if_splits)
  have "va = sum (\<lambda>g. the (map_of m g)) (set A)"
    using assms(2) va by (simp add: sum_list_distinct_conv_sum_set)
  also have "\<dots> \<le> sum (\<lambda>g. the (map_of m g)) (set B)"
    using assms(4) ok nn by (intro sum_mono2) (auto intro: additive_weight_nonneg)
  also have "\<dots> = vb"
    using assms(3) vb by (simp add: sum_list_distinct_conv_sum_set)
  finally show ?thesis .
next
  case (BinaryAgent t c d)
  have "length (filter (\<lambda>g. g \<in> set A) d) \<le> length (filter (\<lambda>g. g \<in> set B) d)"
    using assms(4) by (induction d) auto
  with assms BinaryAgent show ?thesis by auto
qed


lemma smallest_sum:
  fixes A :: "int list"
  shows "sorted A \<Longrightarrow> S \<subseteq># mset A \<Longrightarrow> sum_list (take (size S) A) \<le> sum_mset S"
proof (induction A arbitrary: S)
  case Nil
  then show ?case by simp
next
  case (Cons a A)
  show ?case
  proof (cases "S = {#}")
    case True
    then show ?thesis by simp
  next
    case False
    then obtain x where x: "x \<in># S" by auto
    show ?thesis
    proof (cases "a \<in># S")
      case True
      define S' where "S' = S - {#a#}"
      have S: "S = add_mset a S'" using True by (simp add: S'_def)
      have "S' \<subseteq># mset A" using Cons.prems(2) by (simp add: S)
      moreover have "sorted A" using Cons.prems(1) by simp
      ultimately have "sum_list (take (size S') A) \<le> sum_mset S'" by (rule Cons.IH [rotated])
      then show ?thesis by (simp add: S)
    next
      case False
      define S' where "S' = S - {#x#}"
      have S: "S = add_mset x S'" using x by (simp add: S'_def)
      have sub: "S \<subseteq># mset A"
        using Cons.prems(2) False
        by (metis Diff_eq_empty_iff_mset minus_add_mset_if_not_in_lhs mset.simps(2))
      then have "S' \<subseteq># mset A" using sub
        by (metis S'_def diff_subset_eq_self subset_mset.inf.absorb_iff2 subset_mset.inf.bounded_iff)
      moreover have sA: "sorted A" using Cons.prems(1) by simp
      ultimately have ih: "sum_list (take (size S') A) \<le> sum_mset S'" by (rule Cons.IH [rotated])
      have "x \<in> set A" using sub x by (metis mset_subset_eqD set_mset_mset)
      then have "a \<le> x" using Cons.prems(1) by simp
      with ih show ?thesis by (simp add: S)
    qed
  qed
qed

lemma mset_take_subseteq: "mset (take n xs) \<subseteq># mset xs"
  by (metis append_take_drop_id mset_append mset_subset_eq_add_left)

lemma sorted_drop_sum:
  fixes A D :: "int list"
  assumes "sorted A" "mset D = mset A"
  shows "sum_list (drop n D) \<le> sum_list (drop n A)"
proof -
  have len: "length D = length A" using assms(2) by (metis size_mset)
  have tot: "sum_list D = sum_list A" using assms(2) by (metis sum_mset_sum_list)
  have "sum_list (take (size (mset (take n D))) A) \<le> sum_mset (mset (take n D))"
    using assms by (intro smallest_sum) (auto simp flip: assms(2) intro: mset_take_subseteq)
  then have "sum_list (take n A) \<le> sum_list (take n D)"
    using len by (simp add: sum_mset_sum_list min_def split: if_splits)
  moreover have "sum_list D = sum_list (take n D) + sum_list (drop n D)"
    by (metis append_take_drop_id sum_list_append)
  moreover have "sum_list A = sum_list (take n A) + sum_list (drop n A)"
    by (metis append_take_drop_id sum_list_append)
  ultimately show ?thesis using tot by linarith
qed


lemma additive_except_c:
  fixes wt :: "'a \<Rightarrow> int"
  assumes nn: "\<forall>g\<in>set bundle. 0 \<le> wt g"
  shows "sum_list (map wt (drop n (sort_key (\<lambda>g. - wt g) bundle)))
           \<le> sum_list (map wt (drop n (sort_key wt bundle)))
         \<and> sum_list (map wt (drop n (sort_key wt bundle))) \<le> sum_list (map wt bundle)"
proof -
  define A where "A = map wt (sort_key wt bundle)"
  define D where "D = map wt (sort_key (\<lambda>g. - wt g) bundle)"
  have sA: "sorted A" by (simp add: A_def)
  have mA: "mset A = image_mset wt (mset bundle)" by (simp add: A_def)
  have mD: "mset D = mset A" by (simp add: A_def D_def)
  have 1: "sum_list (drop n D) \<le> sum_list (drop n A)"
    using sA mD by (rule sorted_drop_sum)
  have "\<forall>x\<in>set A. 0 \<le> x" using nn by (auto simp: A_def)
  then have "0 \<le> sum_list (take n A)"
    by (intro sum_list_nonneg) (auto dest: in_set_takeD)
  moreover have "sum_list A = sum_list (take n A) + sum_list (drop n A)"
    by (metis append_take_drop_id sum_list_append)
  moreover have "sum_list A = sum_list (map wt bundle)"
    using mA by (metis mset_map sum_mset_sum_list)
  ultimately have 2: "sum_list (drop n A) \<le> sum_list (map wt bundle)" by linarith
  from 1 2 show ?thesis by (simp add: A_def D_def drop_map)
qed

text \<open>
  Claim C6, as amended. Removing goods cannot raise a monotone valuation: for a bundle
  with more than \<open>c \<ge> 1\<close> goods and an agent with a monotone valuation,
  \<^verbatim>\<open>value_except_best_c_goods\<close> is at most \<^verbatim>\<open>value_except_worst_c_goods\<close>, which is at
  most \<^verbatim>\<open>value(bundle)\<close>, wherever the three are defined.
\<close>

theorem except_c_bounds:
  assumes "monotone_valuation a" "1 \<le> c" "c < int (length bundle)"
    "value_except_best_c_goods a bundle c = Inr b"
    "value_except_worst_c_goods a bundle c = Inr w"
    "agent_value a bundle = Inr v"
  shows "b \<le> w \<and> w \<le> v"
proof (cases a)
  case (MonotoneAgent t k m)
  let ?F = "\<lambda>sub_bundle. agent_value (MonotoneAgent t k m) (difference bundle sub_bundle)"
  from assms MonotoneAgent obtain vs where vs: "traverse ?F (combinations bundle (nat c)) = Inr vs"
    and b: "py_min vs = Inr b" and w: "py_max vs = Inr w"
    by (auto split: sum.splits if_splits)
  from b obtain x xs where xs: "vs = x # xs" by (cases vs) auto
  have bw: "b = fold min xs x" "w = fold max xs x" using b w xs by auto
  have "b \<le> x" "x \<le> w" unfolding bw by (rule fold_min_le, rule fold_max_ge)
  then have 1: "b \<le> w" by simp
  have "w \<in> set vs" unfolding bw xs by (rule fold_max_in)
  then obtain sub where "?F sub = Inr w" using traverse_Inr_set [OF vs] by blast
  then have mw: "m (set (difference bundle sub)) = Some w" by (auto split: option.splits)
  have mv: "m (set bundle) = Some v" using assms(6) MonotoneAgent by (auto split: option.splits)
  have "set (difference bundle sub) \<subseteq> set bundle" by (auto simp: difference_def)
  with mw mv assms(1) MonotoneAgent have "w \<le> v" by auto
  with 1 show ?thesis by simp
next
  case (AdditiveAgent t k m d)
  let ?wt = "\<lambda>g. the (map_of m g)"
  from assms AdditiveAgent have ok: "list_all (\<lambda>g. map_of m g \<noteq> None) bundle"
    and nn: "list_all (\<lambda>(g, v). 0 \<le> v) m"
    by (auto split: if_splits)
  have okb: "list_all (\<lambda>g. map_of m g \<noteq> None) (drop (nat c) (sort_key (\<lambda>g. - ?wt g) bundle))"
    using ok by (auto simp: list_all_iff dest!: in_set_dropD)
  have okw: "list_all (\<lambda>g. map_of m g \<noteq> None) (drop (nat c) (sort_key ?wt bundle))"
    using ok by (auto simp: list_all_iff dest!: in_set_dropD)
  have b: "b = sum_list (map ?wt (drop (nat c) (sort_key (\<lambda>g. - ?wt g) bundle)))"
    using assms(2,3,4) AdditiveAgent ok okb by (simp add: slice_from_def Let_def)
  have w: "w = sum_list (map ?wt (drop (nat c) (sort_key ?wt bundle)))"
    using assms(2,3,5) AdditiveAgent ok okw by (simp add: slice_from_def Let_def)
  have v: "v = sum_list (map ?wt bundle)"
    using assms(6) AdditiveAgent ok by simp
  have "\<forall>g\<in>set bundle. 0 \<le> ?wt g"
    using ok nn by (auto simp: list_all_iff intro!: additive_weight_nonneg)
  from additive_except_c [OF this, of "nat c"] show ?thesis
    unfolding b w v .
next
  case (BinaryAgent t k d)
  with assms show ?thesis by (auto split: if_splits)
qed


theorem value_mono_witness:
  "agent_value (mk_AdditiveAgent [(''x'', 1), (''y'', 2), (''z'', 4), (''w'', 0)] 1) [''y''] = Inr 2
   \<and> agent_value (mk_AdditiveAgent [(''x'', 1), (''y'', 2), (''z'', 4), (''w'', 0)] 1) [''y'', ''x''] = Inr 3
   \<and> (2::int) \<le> 3"
proof -
  let ?a = "mk_AdditiveAgent [(''x'', 1), (''y'', 2), (''z'', 4), (''w'', 0)] 1"
  have m: "monotone_valuation ?a" by (simp add: mk_AdditiveAgent_def)
  have 1: "agent_value ?a [''y''] = Inr 2" by (simp add: mk_AdditiveAgent_def)
  have 2: "agent_value ?a [''y'', ''x''] = Inr 3" by (simp add: mk_AdditiveAgent_def)
  have "(2::int) \<le> 3" by (rule value_mono [OF m _ _ _ 1 2]) simp_all
  with 1 2 show ?thesis by simp
qed

text \<open>
  The claim as stated fails for a constructible monotone agent: the table
  \<^verbatim>\<open>{"x": 5, "xy": 1}\<close> is accepted, and \<^verbatim>\<open>value("x") = 5 > 1 = value("xy")\<close>.
\<close>

theorem value_mono_counterexample:
  "(case mk_MonotoneAgent [([''x''], 5), ([''x'', ''y''], 1)] 1 of
      Inl e \<Rightarrow> None
    | Inr a \<Rightarrow> Some (agent_value a [''x''], agent_value a [''x'', ''y'']))
   = Some (Inr 5, Inr 1)"
  by (auto simp: mk_MonotoneAgent_def)

theorem except_c_bounds_witness:
  "value_except_best_c_goods (mk_AdditiveAgent [(''x'', 1), (''y'', 2), (''z'', 4)] 1) [''x'', ''y'', ''z''] 1 = Inr 3
   \<and> value_except_worst_c_goods (mk_AdditiveAgent [(''x'', 1), (''y'', 2), (''z'', 4)] 1) [''x'', ''y'', ''z''] 1 = Inr 6
   \<and> agent_value (mk_AdditiveAgent [(''x'', 1), (''y'', 2), (''z'', 4)] 1) [''x'', ''y'', ''z''] = Inr 7
   \<and> (3::int) \<le> 6 \<and> (6::int) \<le> 7"
proof -
  let ?a = "mk_AdditiveAgent [(''x'', 1), (''y'', 2), (''z'', 4)] 1"
  let ?b = "[''x'', ''y'', ''z'']"
  have m: "monotone_valuation ?a" by (simp add: mk_AdditiveAgent_def)
  have 1: "value_except_best_c_goods ?a ?b 1 = Inr 3" by (simp add: mk_AdditiveAgent_def slice_from_def)
  have 2: "value_except_worst_c_goods ?a ?b 1 = Inr 6" by (simp add: mk_AdditiveAgent_def slice_from_def)
  have 3: "agent_value ?a ?b = Inr 7" by (simp add: mk_AdditiveAgent_def)
  have "(3::int) \<le> 6 \<and> (6::int) \<le> 7" by (rule except_c_bounds [OF m _ _ 1 2 3]) simp_all
  with 1 2 3 show ?thesis by simp
qed

text \<open>
  The claim as stated puts \<^verbatim>\<open>value(bundle)\<close> below \<^verbatim>\<open>value_except_worst_c_goods\<close>; for
  the binary agent of the docstring and the bundle \<^verbatim>\<open>{"y","z"}\<close> the value is 2 and the
  value except the worst good is 1.
\<close>

theorem except_c_bounds_counterexample:
  "agent_value (mk_BinaryAgent [''x'', ''y'', ''z''] 1) [''y'', ''z''] = Inr 2
   \<and> value_except_worst_c_goods (mk_BinaryAgent [''x'', ''y'', ''z''] 1) [''y'', ''z''] 1 = Inr 1"
  by (simp add: mk_BinaryAgent_def)

section \<open>RWAV: the bundles partition the goods\<close>

lemma set_set_add [simp]: "set (set_add g s) = insert g (set s)"
  by (auto simp: set_add_def)

lemma distinct_set_add: "distinct s \<Longrightarrow> distinct (set_add g s)"
  by (simp add: set_add_def)

lemma length_set_add: "g \<notin> set s \<Longrightarrow> length (set_add g s) = Suc (length s)"
  by (simp add: set_add_def)

lemma turns_of_0: "turns_of n 0 i = {}"
  by (simp add: turns_of_def)

lemma turns_of_Suc:
  "turns_of n (Suc T) i = (if T mod n = i then insert T (turns_of n T i) else turns_of n T i)"
  by (auto simp: turns_of_def less_Suc_eq)

lemma card_turns_of_Suc:
  "card (turns_of n (Suc T) i) = (if T mod n = i then Suc (card (turns_of n T i)) else card (turns_of n T i))"
proof -
  have "finite (turns_of n T i)" by (simp add: turns_of_def)
  moreover have "T \<notin> turns_of n T i" by (simp add: turns_of_def)
  ultimately show ?thesis by (simp add: turns_of_Suc)
qed

lemma rwav_step_inv:
  assumes "rwav_inv G n N st" "g \<in> set (remaining_goods st)" "family_index st < n"
  shows "rwav_inv G n N
           (st\<lparr>bundles := (bundles st)[family_index st := set_add g (bundles st ! family_index st)],
               remaining_goods := remove1 g (remaining_goods st),
               turn_index := turn_index st + 1,
               family_index := (family_index st + 1) mod n\<rparr>)"
proof -
  let ?i = "family_index st"
  let ?bs = "bundles st"
  let ?rem = "remaining_goods st"
  from assms(1) have len: "length ?bs = n" and d: "distinct ?rem"
    and db: "\<forall>i<n. distinct (?bs ! i)"
    and fi: "family_index st = turn_index st mod n"
    and sz: "\<forall>i<n. length (?bs ! i) = card (turns_of n (turn_index st) i)"
    and br: "\<forall>i<n. set (?bs ! i) \<inter> set ?rem = {}"
    and bb: "\<forall>i<n. \<forall>j<n. i \<noteq> j \<longrightarrow> set (?bs ! i) \<inter> set (?bs ! j) = {}"
    and un: "(\<Union>i<n. set (?bs ! i)) \<union> set ?rem = G"
    and tn: "turn_index st + length ?rem = N"
    by (auto simp: rwav_inv_def)
  have nth: "\<And>j. j < n \<Longrightarrow> set (?bs[?i := set_add g (?bs ! ?i)] ! j)
               = (if j = ?i then insert g (set (?bs ! ?i)) else set (?bs ! j))"
    using len by (simp add: nth_list_update)
  have rem: "set (remove1 g ?rem) = set ?rem - {g}" using d by simp
  have 1: "\<forall>j<n. set (?bs[?i := set_add g (?bs ! ?i)] ! j) \<inter> set (remove1 g ?rem) = {}"
    using br by (auto simp: nth rem)
  have 2: "\<forall>j<n. \<forall>k<n. j \<noteq> k \<longrightarrow>
             set (?bs[?i := set_add g (?bs ! ?i)] ! j) \<inter> set (?bs[?i := set_add g (?bs ! ?i)] ! k) = {}"
  proof (intro allI impI)
    fix j k assume jk: "j < n" "k < n" "j \<noteq> k"
    have "g \<notin> set (?bs ! j)" "g \<notin> set (?bs ! k)" using br jk assms(2) by auto
    moreover have "set (?bs ! j) \<inter> set (?bs ! k) = {}" using bb jk by simp
    ultimately show "set (?bs[?i := set_add g (?bs ! ?i)] ! j) \<inter> set (?bs[?i := set_add g (?bs ! ?i)] ! k) = {}"
      using jk by (auto simp: nth)
  qed
  have 3: "(\<Union>j<n. set (?bs[?i := set_add g (?bs ! ?i)] ! j)) \<union> set (remove1 g ?rem) = G"
  proof -
    have "(\<Union>j<n. set (?bs[?i := set_add g (?bs ! ?i)] ! j)) = insert g (\<Union>j<n. set (?bs ! j))"
      using assms(3) by (auto simp: nth split: if_splits)
    then show ?thesis using un assms(2) by (auto simp: rem)
  qed
  have 4: "turn_index st + 1 + length (remove1 g ?rem) = N"
    using tn assms(2) by (simp add: length_remove1) (metis length_pos_if_in_set Suc_pred add_Suc_right)
  have upd: "\<And>j. j < n \<Longrightarrow> ?bs[?i := set_add g (?bs ! ?i)] ! j
               = (if j = ?i then set_add g (?bs ! ?i) else ?bs ! j)"
    using len by (simp add: nth_list_update)
  have gi: "g \<notin> set (?bs ! ?i)" using br assms(2,3) by auto
  have 5: "\<forall>j<n. distinct (?bs[?i := set_add g (?bs ! ?i)] ! j)"
    using db by (simp add: upd distinct_set_add)
  have 6: "(?i + 1) mod n = (turn_index st + 1) mod n"
    unfolding fi by (simp add: mod_Suc_eq)
  have 7: "\<forall>j<n. length (?bs[?i := set_add g (?bs ! ?i)] ! j) = card (turns_of n (turn_index st + 1) j)"
  proof (intro allI impI)
    fix j assume j: "j < n"
    show "length (?bs[?i := set_add g (?bs ! ?i)] ! j) = card (turns_of n (turn_index st + 1) j)"
    proof (cases "j = ?i")
      case True
      then have "turn_index st mod n = j" using fi by simp
      then show ?thesis using True j sz gi by (simp add: upd length_set_add card_turns_of_Suc)
    next
      case False
      then have "turn_index st mod n \<noteq> j" using fi by simp
      then show ?thesis using False j sz by (simp add: upd card_turns_of_Suc)
    qed
  qed
  show ?thesis
    unfolding rwav_inv_def using len d 1 2 3 4 5 6 7 by simp
qed

lemma rwav_loop_inv:
  "rwav_loop families st = Inr st' \<Longrightarrow> rwav_inv G (length families) N st \<Longrightarrow>
   rwav_inv G (length families) N st' \<and> remaining_goods st' = []"
proof (induction families st rule: rwav_loop.induct)
  case (1 families st)
  show ?case
  proof (cases "remaining_goods st = []")
    case True
    with "1.prems" show ?thesis by (simp add: rwav_loop.simps [of families st])
  next
    case False
    with "1.prems"(1) have fi: "family_index st < length families"
      by (simp add: rwav_loop.simps [of families st] split: if_splits)
    from False fi "1.prems"(1) obtain g where
      g: "choose_good (families ! family_index st) (bundles st ! family_index st)
            (remaining_goods st) (int (length families)) = Inr g"
      by (simp add: rwav_loop.simps [of families st] split: sum.splits)
    from False fi g "1.prems"(1) have gin: "g \<in> set (remaining_goods st)"
      by (simp add: rwav_loop.simps [of families st] split: if_splits)
    let ?st2 = "st\<lparr>bundles := (bundles st)[family_index st := set_add g (bundles st ! family_index st)],
                  remaining_goods := remove1 g (remaining_goods st),
                  turn_index := turn_index st + 1,
                  family_index := (family_index st + 1) mod length families\<rparr>"
    have run: "rwav_loop families ?st2 = Inr st'"
      using False fi g gin "1.prems"(1) by (simp add: rwav_loop.simps [of families st])
    have inv2: "rwav_inv G (length families) N ?st2"
      using "1.prems"(2) gin fi by (rule rwav_step_inv)
    from False have pos: "0 < length (remaining_goods st)" by simp
    show ?thesis
      by (rule "1.IH" [OF pos fi g gin run inv2])
  qed
qed


lemma weight_two: "\<exists>w. weight r s 2 = Inr w"
  by (simp add: weight_def balance_two)

lemma member_weight_two:
  "is_binary a \<Longrightarrow> \<exists>w. member_weight a t owned rem 2 = Inr w"
  by (cases a) (simp_all add: member_weight_def weight_two)

lemma total_weights_two:
  "\<forall>m\<in>set ms. is_binary (agent m) \<Longrightarrow> \<exists>w'. total_weights ms owned rem 2 w = Inr w'"
proof (induction ms arbitrary: w)
  case Nil
  then show ?case by simp
next
  case (Cons m ms)
  then have b: "is_binary (agent m)" by simp
  then obtain x where x: "member_weight (agent m) (target_value m) owned rem 2 = Inr x"
    using member_weight_two by blast
  from b obtain t c d where a: "agent m = BinaryAgent t c d" by (cases "agent m") auto
  from Cons.prems have "\<forall>m\<in>set ms. is_binary (agent m)" by simp
  from Cons.IH [OF this] x show ?case by (simp add: a)
qed

lemma fold_min_by_key_in:
  "fold (\<lambda>h best. if key_less w h best then h else best) gs g \<in> set (g # gs)"
  by (induction gs arbitrary: g) (auto split: if_splits)

lemma min_by_key_in: "min_by_key w gs = Inr g \<Longrightarrow> g \<in> set gs"
  using fold_min_by_key_in [of w "tl gs" "hd gs"] by (cases gs) auto

lemma choose_good_two:
  assumes "\<forall>m\<in>set (members family). is_binary (agent m)" "rem \<noteq> []"
  shows "\<exists>g. choose_good family owned rem 2 = Inr g \<and> g \<in> set rem"
proof -
  obtain w where w: "total_weights (members family) owned rem 2 (\<lambda>good. 0) = Inr w"
    using total_weights_two [OF assms(1)] by blast
  obtain x xs where r: "rem = x # xs" using assms(2) by (cases rem) auto
  show ?thesis
    using fold_min_by_key_in [of w xs x] w [unfolded r] by (simp add: choose_good_def r)
qed

lemma rwav_loop_two:
  assumes "length families = 2" "\<forall>f\<in>set families. \<forall>m\<in>set (members f). is_binary (agent m)"
  shows "length (remaining_goods st) = n \<Longrightarrow> family_index st < 2 \<Longrightarrow> \<exists>st'. rwav_loop families st = Inr st'"
proof (induction n arbitrary: st)
  case 0
  then show ?case by (simp add: rwav_loop.simps [of families st])
next
  case (Suc n)
  then have ne: "remaining_goods st \<noteq> []" by auto
  have f: "families ! family_index st \<in> set families" using Suc.prems(2) assms(1) by simp
  then have "\<forall>m\<in>set (members (families ! family_index st)). is_binary (agent m)"
    using assms(2) by blast
  from choose_good_two [OF this ne] obtain g where
    g: "choose_good (families ! family_index st) (bundles st ! family_index st) (remaining_goods st) 2 = Inr g"
    and gin: "g \<in> set (remaining_goods st)" by blast
  let ?st2 = "st\<lparr>bundles := (bundles st)[family_index st := set_add g (bundles st ! family_index st)],
                remaining_goods := remove1 g (remaining_goods st),
                turn_index := turn_index st + 1,
                family_index := (family_index st + 1) mod length families\<rparr>"
  have "length (remaining_goods ?st2) = n" using Suc.prems(1) gin by (simp add: length_remove1)
  moreover have "family_index ?st2 < 2" using assms(1) by simp
  ultimately obtain st' where "rwav_loop families ?st2 = Inr st'" using Suc.IH by blast
  then show ?case
    using ne Suc.prems(2) g gin assms(1) by (simp add: rwav_loop.simps [of families st])
qed

lemma set_targets_binary:
  "\<forall>m\<in>set (members f). is_binary (agent m) \<Longrightarrow> \<forall>m\<in>set (members (set_targets f)). is_binary (agent m)"
  by (auto simp: set_targets_def)

lemma set_concat_nth: "set (concat bs) = (\<Union>i<length bs. set (bs ! i))"
proof -
  have "set bs = (\<lambda>i. bs ! i) ` {..<length bs}"
    by (auto simp: in_set_conv_nth)
  then have "\<Union> (set ` set bs) = (\<Union>i<length bs. set (bs ! i))"
    by (simp add: image_image)
  then show ?thesis by simp
qed

lemma choose_good_in: "choose_good f owned rem k = Inr g \<Longrightarrow> g \<in> set rem"
  by (auto simp: choose_good_def split: sum.splits dest: min_by_key_in)

lemma rwav_turn:
  assumes "remaining_goods s \<noteq> []" "family_index s < length fs"
    and "choose_good (fs ! family_index s) (bundles s ! family_index s) (remaining_goods s)
           (int (length fs)) = Inr g"
  shows "g \<in> set (remaining_goods s)
         \<and> rwav_loop fs s =
             rwav_loop fs
               (s\<lparr>bundles := (bundles s)[family_index s := set_add g (bundles s ! family_index s)],
                  remaining_goods := remove1 g (remaining_goods s),
                  turn_index := turn_index s + 1,
                  family_index := (family_index s + 1) mod length fs\<rparr>)"
proof -
  have g: "g \<in> set (remaining_goods s)" using assms(3) by (rule choose_good_in)
  show ?thesis using assms g by (simp add: rwav_loop.simps [of fs s])
qed

text \<open>
  Claim C2, as amended. For exactly two families of binary agents the RWAV loop always
  returns. For any list of families, whenever it returns, it returns one bundle per
  family, the bundles are pairwise disjoint sets, together they hold exactly the goods,
  no good remains, and the number of turns taken is the number of goods. The families
  take turns in round-robin order, the first family first, and each turn gives one good
  to the family whose turn it is: the bundle of family \<open>i\<close> ends with as many goods as
  there are turns \<open>t\<close> with \<open>t mod k = i\<close>, and the pointer ends at the number of goods
  modulo the number \<open>k\<close> of families. In one turn, from any state \<open>s\<close> of the loop with a
  good remaining, the good \<open>g\<close> that the family at the pointer chooses is one of the
  remaining goods; it leaves them for the bundle of that family, the number of turns
  grows by one, and the pointer moves to the next family modulo \<open>k\<close>.
\<close>

theorem allocate_partitions:
  "(length families = 2 \<and> (\<forall>f\<in>set families. \<forall>m\<in>set (members f). is_binary (agent m))
      \<longrightarrow> (\<exists>st. allocate_run families goods = Inr st))
   \<and> (allocate_run families goods = Inr st \<longrightarrow>
        allocate families goods = Inr (bundles st)
        \<and> length (bundles st) = length families
        \<and> (\<forall>i<length families. \<forall>j<length families. i \<noteq> j \<longrightarrow>
              set (bundles st ! i) \<inter> set (bundles st ! j) = {})
        \<and> set (concat (bundles st)) = set goods
        \<and> remaining_goods st = []
        \<and> turn_index st = card (set goods)
        \<and> family_index st = card (set goods) mod length families
        \<and> (\<forall>i<length families. distinct (bundles st ! i)
              \<and> length (bundles st ! i) = card (turns_of (length families) (card (set goods)) i)))
   \<and> (remaining_goods s \<noteq> [] \<and> family_index s < length fs
        \<and> choose_good (fs ! family_index s) (bundles s ! family_index s) (remaining_goods s)
              (int (length fs)) = Inr g
      \<longrightarrow> g \<in> set (remaining_goods s)
          \<and> rwav_loop fs s =
              rwav_loop fs
                (s\<lparr>bundles := (bundles s)[family_index s := set_add g (bundles s ! family_index s)],
                   remaining_goods := remove1 g (remaining_goods s),
                   turn_index := turn_index s + 1,
                   family_index := (family_index s + 1) mod length fs\<rparr>))"
proof (intro conjI impI)
  assume a: "length families = 2 \<and> (\<forall>f\<in>set families. \<forall>m\<in>set (members f). is_binary (agent m))"
  then have "length (map set_targets families) = 2"
    and "\<forall>f\<in>set (map set_targets families). \<forall>m\<in>set (members f). is_binary (agent m)"
    using set_targets_binary by auto
  from rwav_loop_two [OF this refl] show "\<exists>st. allocate_run families goods = Inr st"
    by (simp add: allocate_run_def)
next
  assume r: "allocate_run families goods = Inr st"
  let ?st0 = "\<lparr>remaining_goods = remdups goods, bundles = map (\<lambda>f. []) families,
               turn_index = 0, family_index = 0\<rparr>"
  have inv0: "rwav_inv (set goods) (length (map set_targets families)) (card (set goods)) ?st0"
    by (simp add: rwav_inv_def length_remdups_card_conv turns_of_0)
  from r have "rwav_loop (map set_targets families) ?st0 = Inr st" by (simp add: allocate_run_def)
  from rwav_loop_inv [OF this inv0] have inv: "rwav_inv (set goods) (length families) (card (set goods)) st"
    and e: "remaining_goods st = []" by simp_all
  show "allocate families goods = Inr (bundles st)" using r by (simp add: allocate_def)
  show "length (bundles st) = length families" using inv by (simp add: rwav_inv_def)
  show "\<forall>i<length families. \<forall>j<length families. i \<noteq> j \<longrightarrow>
              set (bundles st ! i) \<inter> set (bundles st ! j) = {}" using inv by (simp add: rwav_inv_def)
  show "set (concat (bundles st)) = set goods"
    using inv e unfolding set_concat_nth by (simp add: rwav_inv_def)
  show "remaining_goods st = []" by (rule e)
  show t: "turn_index st = card (set goods)" using inv e by (simp add: rwav_inv_def)
  show "family_index st = card (set goods) mod length families"
    using inv t by (simp add: rwav_inv_def)
  show "\<forall>i<length families. distinct (bundles st ! i)
          \<and> length (bundles st ! i) = card (turns_of (length families) (card (set goods)) i)"
    using inv t by (simp add: rwav_inv_def)
next
  assume t: "remaining_goods s \<noteq> [] \<and> family_index s < length fs
        \<and> choose_good (fs ! family_index s) (bundles s ! family_index s) (remaining_goods s)
              (int (length fs)) = Inr g"
  then show "g \<in> set (remaining_goods s)" using rwav_turn [of s fs g] by blast
  from t show "rwav_loop fs s =
              rwav_loop fs
                (s\<lparr>bundles := (bundles s)[family_index s := set_add g (bundles s ! family_index s)],
                   remaining_goods := remove1 g (remaining_goods s),
                   turn_index := turn_index s + 1,
                   family_index := (family_index s + 1) mod length fs\<rparr>)"
    using rwav_turn [of s fs g] by blast
qed

text \<open>
  The claim as stated fails for a single family: the weight of a member with
  \<open>0 < s \<le> r\<close> is not defined for \<open>k = 1\<close>, and the call ends in the last
  \<^verbatim>\<open>raise\<close> of \<^verbatim>\<open>balance\<close>.
\<close>

theorem allocate_partitions_counterexample:
  "allocate [family2] [''w'', ''x'', ''y'', ''z''] = Inl AttributeError"
  by (simp add: allocate_def allocate_run_def rwav_loop.simps choose_good_def member_weight_def
      weight_def balance.simps set_targets_def family2_def binary_member_def mk_BinaryAgent_def
      fairness_1_of_best_2_def)

text \<open>
  The families of the docstring: the call returns, four turns are taken, each family
  ends with two goods, and in the first turn the first family takes z.
\<close>

theorem allocate_partitions_witness:
  "(\<exists>st. allocate_run [family1, family2] [''w'', ''x'', ''y'', ''z''] = Inr st
     \<and> allocate [family1, family2] [''w'', ''x'', ''y'', ''z''] = Inr (bundles st)
     \<and> length (bundles st) = 2
     \<and> set (bundles st ! 0) \<inter> set (bundles st ! 1) = {}
     \<and> set (concat (bundles st)) = {''w'', ''x'', ''y'', ''z''}
     \<and> turn_index st = 4 \<and> family_index st = 0
     \<and> length (bundles st ! 0) = 2 \<and> length (bundles st ! 1) = 2)
   \<and> rwav_loop (map set_targets [family1, family2])
         \<lparr>remaining_goods = [''w'', ''x'', ''y'', ''z''], bundles = [[], []],
          turn_index = 0, family_index = 0\<rparr>
       = rwav_loop (map set_targets [family1, family2])
         \<lparr>remaining_goods = [''w'', ''x'', ''y''], bundles = [[''z''], []],
          turn_index = 1, family_index = 1\<rparr>"
proof -
  let ?fs = "[family1, family2]"
  let ?gs = "[''w'', ''x'', ''y'', ''z'']"
  have b: "length ?fs = 2 \<and> (\<forall>f\<in>set ?fs. \<forall>m\<in>set (members f). is_binary (agent m))"
    by (simp add: family1_def family2_def binary_member_def mk_BinaryAgent_def)
  from allocate_partitions [of ?fs ?gs] b obtain st where st: "allocate_run ?fs ?gs = Inr st"
    by blast
  have c4: "card (set ?gs) = 4" by simp
  have l2: "length ?fs = 2" by simp
  from allocate_partitions [of ?fs ?gs st] st
  have all: "allocate ?fs ?gs = Inr (bundles st)
        \<and> length (bundles st) = length ?fs
        \<and> (\<forall>i<length ?fs. \<forall>j<length ?fs. i \<noteq> j
              \<longrightarrow> set (bundles st ! i) \<inter> set (bundles st ! j) = {})
        \<and> set (concat (bundles st)) = set ?gs
        \<and> remaining_goods st = []
        \<and> turn_index st = card (set ?gs)
        \<and> family_index st = card (set ?gs) mod length ?fs
        \<and> (\<forall>i<length ?fs. distinct (bundles st ! i)
              \<and> length (bundles st ! i) = card (turns_of (length ?fs) (card (set ?gs)) i))"
    by blast
  have t0: "card (turns_of 2 4 0) = 2" and t1: "card (turns_of 2 4 1) = 2"
    by (simp_all add: numeral_eq_Suc card_turns_of_Suc turns_of_0 mod_Suc)
  from all have 1: "allocate ?fs ?gs = Inr (bundles st)" by blast
  from all have 2: "length (bundles st) = 2" unfolding l2 by blast
  from all have "\<forall>i<2. \<forall>j<2. i \<noteq> j
              \<longrightarrow> set (bundles st ! i) \<inter> set (bundles st ! j) = {}"
    unfolding l2 by blast
  then have 3: "set (bundles st ! 0) \<inter> set (bundles st ! 1) = {}" by simp
  from all have 4: "set (concat (bundles st)) = {''w'', ''x'', ''y'', ''z''}" by simp
  from all have 5: "turn_index st = 4" unfolding c4 by blast
  from all have "family_index st = 4 mod 2" unfolding c4 l2 by blast
  then have 6: "family_index st = 0" by simp
  from all have sz: "\<forall>i<2. length (bundles st ! i) = card (turns_of 2 4 i)"
    unfolding c4 l2 by blast
  from sz have 7: "length (bundles st ! 0) = 2" using t0 by simp
  from sz have 8: "length (bundles st ! 1) = 2" using t1 by simp
  let ?fs' = "map set_targets ?fs"
  let ?s0 = "\<lparr>remaining_goods = ?gs, bundles = [[], []], turn_index = 0, family_index = 0\<rparr>"
  have cg: "choose_good (?fs' ! family_index ?s0) (bundles ?s0 ! family_index ?s0)
              (remaining_goods ?s0) (int (length ?fs')) = Inr ''z''"
    by (simp add: choose_good_def member_weight_def weight_def balance.simps set_targets_def
        family1_def binary_member_def mk_BinaryAgent_def fairness_1_of_best_2_def key_less_def
        float_add_def float_sub_def float_mul_def float_div_def round_double_small)
  have pre: "remaining_goods ?s0 \<noteq> [] \<and> family_index ?s0 < length ?fs'" by simp
  from allocate_partitions [where fs = ?fs' and s = ?s0 and g = "''z''"] pre cg
  have "rwav_loop ?fs' ?s0 =
          rwav_loop ?fs'
            (?s0\<lparr>bundles := (bundles ?s0)[family_index ?s0 := set_add ''z'' (bundles ?s0 ! family_index ?s0)],
                 remaining_goods := remove1 ''z'' (remaining_goods ?s0),
                 turn_index := turn_index ?s0 + 1,
                 family_index := (family_index ?s0 + 1) mod length ?fs'\<rparr>)"
    by blast
  then have 9: "rwav_loop ?fs' ?s0
       = rwav_loop ?fs' \<lparr>remaining_goods = [''w'', ''x'', ''y''], bundles = [[''z''], []],
                          turn_index = 1, family_index = 1\<rparr>"
    by (simp add: set_add_def)
  from st 1 2 3 4 5 6 7 8 have "\<exists>st. allocate_run ?fs ?gs = Inr st
     \<and> allocate ?fs ?gs = Inr (bundles st)
     \<and> length (bundles st) = 2
     \<and> set (bundles st ! 0) \<inter> set (bundles st ! 1) = {}
     \<and> set (concat (bundles st)) = {''w'', ''x'', ''y'', ''z''}
     \<and> turn_index st = 4 \<and> family_index st = 0
     \<and> length (bundles st ! 0) = 2 \<and> length (bundles st ! 1) = 2" by blast
  with 9 show ?thesis by (intro conjI)
qed

text \<open>
  The example of the docstring: the first family gets x and z, the second w and y.
\<close>

lemma allocate_docstring:
  "allocate [family1, family2] [''w'', ''x'', ''y'', ''z''] = Inr [[''z'', ''x''], [''y'', ''w'']]"
  by (simp add: allocate_def allocate_run_def rwav_loop.simps choose_good_def member_weight_def
      weight_def balance.simps set_targets_def family1_def family2_def binary_member_def
      mk_BinaryAgent_def fairness_1_of_best_2_def key_less_def set_add_def
      float_add_def float_sub_def float_mul_def float_div_def round_double_small)

section \<open>The two-thirds protocol: the bundles partition the goods\<close>

lemma twothirds_move_1:
  "twothirds_inv G (b0, b1) \<Longrightarrow> g \<in> set b0 \<Longrightarrow> twothirds_inv G (remove1 g b0, set_add g b1)"
  by (auto simp: twothirds_inv_def distinct_set_add)

lemma twothirds_move_2:
  "twothirds_inv G (b0, b1) \<Longrightarrow> g \<in> set b1 \<Longrightarrow> twothirds_inv G (set_add g b0, remove1 g b1)"
  by (auto simp: twothirds_inv_def distinct_set_add)

lemma twothirds_pass1_inv:
  "twothirds_pass1 families gs (b0, b1, ch) = Inr (b0', b1', ch') \<Longrightarrow> twothirds_inv G (b0, b1) \<Longrightarrow>
   twothirds_inv G (b0', b1')"
proof (induction gs arbitrary: b0 b1 ch)
  case Nil
  then show ?case by simp
next
  case (Cons g gs)
  from Cons.prems(1) show ?case
    by (auto split: sum.splits if_splits
          intro: Cons.IH [OF _ Cons.prems(2)] Cons.IH [OF _ twothirds_move_1 [OF Cons.prems(2)]])
qed

lemma twothirds_pass2_inv:
  "twothirds_pass2 families gs (b0, b1, ch) = Inr (b0', b1', ch') \<Longrightarrow> twothirds_inv G (b0, b1) \<Longrightarrow>
   twothirds_inv G (b0', b1')"
proof (induction gs arbitrary: b0 b1 ch)
  case Nil
  then show ?case by simp
next
  case (Cons g gs)
  from Cons.prems(1) show ?case
    by (auto split: sum.splits if_splits
          intro: Cons.IH [OF _ Cons.prems(2)] Cons.IH [OF _ twothirds_move_2 [OF Cons.prems(2)]])
qed

lemma twothirds_loop_inv:
  "twothirds_loop set_order n families (b0, b1) = Inr (b0', b1') \<Longrightarrow> twothirds_inv G (b0, b1) \<Longrightarrow>
   twothirds_inv G (b0', b1')"
proof (induction n arbitrary: b0 b1)
  case 0
  then show ?case by simp
next
  case (Suc n)
  from Suc.prems(1) obtain c0 c1 ch where
    p1: "twothirds_pass1 families (set_order b0) (b0, b1, False) = Inr (c0, c1, ch)"
    by (auto split: sum.splits)
  from Suc.prems(1) p1 obtain d0 d1 ch' where
    p2: "twothirds_pass2 families (set_order c1) (c0, c1, ch) = Inr (d0, d1, ch')"
    by (auto split: sum.splits)
  have i1: "twothirds_inv G (c0, c1)" using p1 Suc.prems(2) by (rule twothirds_pass1_inv)
  have i2: "twothirds_inv G (d0, d1)" using p2 i1 by (rule twothirds_pass2_inv)
  show ?case
  proof (cases ch')
    case True
    with Suc.prems(1) p1 p2 have "twothirds_loop set_order n families (d0, d1) = Inr (b0', b1')" by simp
    then show ?thesis using i2 by (rule Suc.IH)
  next
    case False
    with Suc.prems(1) p1 p2 i2 show ?thesis by simp
  qed
qed


lemma traverse_total:
  "\<forall>x\<in>set xs. \<exists>y. f x = Inr y \<Longrightarrow> \<exists>ys. traverse f xs = Inr ys"
proof (induction xs)
  case Nil
  then show ?case by simp
next
  case (Cons x xs)
  then obtain y ys where "f x = Inr y" "traverse f xs = Inr ys" by auto
  then show ?case by simp
qed

lemma wants_and_holds_binary:
  "is_binary (agent m) \<Longrightarrow> \<exists>b. wants_and_holds g bundle n m = Inr b"
  by (cases "agent m") (auto simp: wants_and_holds_def)

lemma num_of_members_if_binary:
  assumes "\<forall>m\<in>set (members f). is_binary (agent m)"
  shows "\<exists>n. num_of_members_if f (wants_and_holds g bundle k) = Inr n"
proof -
  have "\<exists>bs. traverse (wants_and_holds g bundle k) (members f) = Inr bs"
    using assms by (intro traverse_total) (auto intro: wants_and_holds_binary)
  then show ?thesis by (auto simp: num_of_members_if_def)
qed

lemma twothirds_pass1_total:
  assumes "\<forall>m\<in>set (members (families ! 0)). is_binary (agent m)"
    "\<forall>m\<in>set (members (families ! 1)). is_binary (agent m)"
  shows "distinct gs \<Longrightarrow> set gs \<subseteq> set b0 \<Longrightarrow> \<exists>st'. twothirds_pass1 families gs (b0, b1, ch) = Inr st'"
proof (induction gs arbitrary: b0 b1 ch)
  case Nil
  then show ?case by simp
next
  case (Cons g gs)
  obtain p2 where p2: "num_of_members_if (families ! 1) (wants_and_holds g b1 0) = Inr p2"
    using num_of_members_if_binary [OF assms(2)] by blast
  obtain p1 where p1: "num_of_members_if (families ! 0) (wants_and_holds g b0 1) = Inr p1"
    using num_of_members_if_binary [OF assms(1)] by blast
  have d: "distinct gs" and gin: "g \<in> set b0" and sub: "set gs \<subseteq> set b0" and gn: "g \<notin> set gs"
    using Cons.prems by auto
  have sub': "set gs \<subseteq> set (remove1 g b0)"
  proof
    fix x assume x: "x \<in> set gs"
    then have "x \<noteq> g" "x \<in> set b0" using gn sub by auto
    then show "x \<in> set (remove1 g b0)" by (simp add: in_set_remove1)
  qed
  show ?case
    using Cons.IH [OF d sub, of b1 ch] Cons.IH [OF d sub', of "set_add g b1" True] gin p1 p2
    by simp
qed

lemma twothirds_pass2_total:
  assumes "\<forall>m\<in>set (members (families ! 0)). is_binary (agent m)"
    "\<forall>m\<in>set (members (families ! 1)). is_binary (agent m)"
  shows "distinct gs \<Longrightarrow> set gs \<subseteq> set b1 \<Longrightarrow> \<exists>st'. twothirds_pass2 families gs (b0, b1, ch) = Inr st'"
proof (induction gs arbitrary: b0 b1 ch)
  case Nil
  then show ?case by simp
next
  case (Cons g gs)
  obtain p1 where p1: "num_of_members_if (families ! 0) (wants_and_holds g b0 0) = Inr p1"
    using num_of_members_if_binary [OF assms(1)] by blast
  obtain p2 where p2: "num_of_members_if (families ! 1) (wants_and_holds g b1 1) = Inr p2"
    using num_of_members_if_binary [OF assms(2)] by blast
  have d: "distinct gs" and gin: "g \<in> set b1" and sub: "set gs \<subseteq> set b1" and gn: "g \<notin> set gs"
    using Cons.prems by auto
  have sub': "set gs \<subseteq> set (remove1 g b1)"
  proof
    fix x assume x: "x \<in> set gs"
    then have "x \<noteq> g" "x \<in> set b1" using gn sub by auto
    then show "x \<in> set (remove1 g b1)" by (simp add: in_set_remove1)
  qed
  show ?case
    using Cons.IH [OF d sub, of b0 ch] Cons.IH [OF d sub', of "set_add g b0" True] gin p1 p2
    by simp
qed

lemma twothirds_loop_total:
  assumes "\<forall>m\<in>set (members (families ! 0)). is_binary (agent m)"
    "\<forall>m\<in>set (members (families ! 1)). is_binary (agent m)"
    and ord: "lists_sets set_order"
  shows "twothirds_inv G (b0, b1) \<Longrightarrow> \<exists>st'. twothirds_loop set_order n families (b0, b1) = Inr st'"
proof (induction n arbitrary: b0 b1)
  case 0
  then show ?case by simp
next
  case (Suc n)
  then have "distinct b0" by (simp add: twothirds_inv_def)
  then have d0: "distinct (set_order b0)" and s0: "set (set_order b0) \<subseteq> set b0"
    using ord by (simp_all add: lists_sets_def)
  obtain c0 c1 ch where p1: "twothirds_pass1 families (set_order b0) (b0, b1, False) = Inr (c0, c1, ch)"
    using twothirds_pass1_total [OF assms(1,2) d0 s0, of b1 False] by (metis prod_cases3)
  have i1: "twothirds_inv G (c0, c1)" using p1 Suc.prems by (rule twothirds_pass1_inv)
  then have "distinct c1" by (simp add: twothirds_inv_def)
  then have d1: "distinct (set_order c1)" and s1: "set (set_order c1) \<subseteq> set c1"
    using ord by (simp_all add: lists_sets_def)
  obtain d0 d1 ch' where p2: "twothirds_pass2 families (set_order c1) (c0, c1, ch) = Inr (d0, d1, ch')"
    using twothirds_pass2_total [OF assms(1,2) d1 s1, of c0 ch] by (metis prod_cases3)
  have i2: "twothirds_inv G (d0, d1)" using p2 i1 by (rule twothirds_pass2_inv)
  show ?case using Suc.IH [OF i2] by (simp add: p1 p2)
qed

text \<open>
  Claim C10, as amended. For two families of binary agents \<^verbatim>\<open>allocate_twothirds\<close>
  returns two bundles, in whatever order the sets are iterated. For any two families,
  whenever it returns, it returns exactly two bundles, disjoint, whose union is the set
  of the goods. Each move of a single good, from the first bundle to the second or back,
  keeps the invariant, and so does the loop for every bound \<open>n\<close> on the number of
  iterations, whether it stops early or runs the bound out. For other agents the call
  need not return: a valuation query may fail.
\<close>

theorem allocate_twothirds_partitions:
  "(lists_sets set_order \<and> length families = 2
      \<and> (\<forall>f\<in>set families. \<forall>m\<in>set (members f). is_binary (agent m))
      \<longrightarrow> (\<exists>b0 b1. allocate_twothirds set_order families goods = Inr [b0, b1]))
   \<and> (allocate_twothirds set_order families goods = Inr bs \<longrightarrow>
        (\<exists>b0 b1. bs = [b0, b1] \<and> set b0 \<inter> set b1 = {} \<and> set b0 \<union> set b1 = set goods))
   \<and> (twothirds_inv G (b0, b1) \<and> g \<in> set b0 \<longrightarrow> twothirds_inv G (remove1 g b0, set_add g b1))
   \<and> (twothirds_inv G (b0, b1) \<and> g \<in> set b1 \<longrightarrow> twothirds_inv G (set_add g b0, remove1 g b1))
   \<and> (twothirds_inv G (b0, b1) \<and> twothirds_loop set_order n families (b0, b1) = Inr (b0', b1')
        \<longrightarrow> twothirds_inv G (b0', b1'))"
proof -
  have inv0: "twothirds_inv (set goods) ([], remdups goods)"
    by (simp add: twothirds_inv_def)
  have 1: "\<exists>b0 b1. allocate_twothirds set_order families goods = Inr [b0, b1]"
    if a: "lists_sets set_order \<and> length families = 2
             \<and> (\<forall>f\<in>set families. \<forall>m\<in>set (members f). is_binary (agent m))"
  proof -
    from a have "families ! 0 \<in> set families" "families ! 1 \<in> set families" by simp_all
    with a have b: "\<forall>m\<in>set (members (families ! 0)). is_binary (agent m)"
      "\<forall>m\<in>set (members (families ! 1)). is_binary (agent m)" by blast+
    from a have ord: "lists_sets set_order" by blast
    from twothirds_loop_total [OF b ord inv0] obtain c0 c1 where
      "twothirds_loop set_order (nat (2 * sum_list (map num_of_members families))) families
         ([], remdups goods) = Inr (c0, c1)" by (metis surj_pair)
    with a show ?thesis by (simp add: allocate_twothirds_def Let_def)
  qed
  have 2: "\<exists>b0 b1. bs = [b0, b1] \<and> set b0 \<inter> set b1 = {} \<and> set b0 \<union> set b1 = set goods"
    if r: "allocate_twothirds set_order families goods = Inr bs"
  proof -
    from r obtain c0 c1 where
      l: "twothirds_loop set_order (nat (2 * sum_list (map num_of_members families))) families
            ([], remdups goods) = Inr (c0, c1)" and bs: "bs = [c0, c1]"
      by (auto simp: allocate_twothirds_def Let_def split: if_splits sum.splits)
    from twothirds_loop_inv [OF l inv0] bs show ?thesis by (simp add: twothirds_inv_def)
  qed
  from 1 2 show ?thesis
    using twothirds_move_1 twothirds_move_2 twothirds_loop_inv by blast
qed

theorem allocate_twothirds_partitions_witness:
  "\<exists>b0 b1. allocate_twothirds (\<lambda>s. s) [twothirds_family, twothirds_family] [''w'', ''x'', ''y'', ''z'']
              = Inr [b0, b1]
     \<and> set b0 \<inter> set b1 = {} \<and> set b0 \<union> set b1 = {''w'', ''x'', ''y'', ''z''}"
proof -
  let ?fs = "[twothirds_family, twothirds_family]"
  let ?gs = "[''w'', ''x'', ''y'', ''z'']"
  have b: "lists_sets (\<lambda>s. s) \<and> length ?fs = 2
             \<and> (\<forall>f\<in>set ?fs. \<forall>m\<in>set (members f). is_binary (agent m))"
    by (simp add: lists_sets_def twothirds_family_def binary_member_def mk_BinaryAgent_def)
  from allocate_twothirds_partitions [of "\<lambda>s. s" ?fs ?gs] b obtain b0 b1 where
    r: "allocate_twothirds (\<lambda>s. s) ?fs ?gs = Inr [b0, b1]" by blast
  from allocate_twothirds_partitions [of "\<lambda>s. s" ?fs ?gs "[b0, b1]"] r
  have "set b0 \<inter> set b1 = {} \<and> set b0 \<union> set b1 = set ?gs" by simp
  with r show ?thesis by auto
qed

text \<open>
  The call does not return for every pair of families: for two families of the additive
  agent \<^verbatim>\<open>AdditiveAgent({"x": 1})\<close> and the goods w and x, the agent is asked the value
  of w, or of the bundle of w and x, and its table has no w. The lookup fails whichever
  of the two goods is visited first.
\<close>

theorem allocate_twothirds_partitions_counterexample:
  "allocate_twothirds (\<lambda>s. s) [additive_family, additive_family] [''w'', ''x''] = Inl KeyError
   \<and> allocate_twothirds rev [additive_family, additive_family] [''w'', ''x''] = Inl KeyError"
  by (simp add: allocate_twothirds_def additive_family_def mk_AdditiveAgent_def
      num_of_members_def num_of_members_if_def wants_and_holds_def chars_def set_add_def
      numeral_eq_Suc)

text \<open>
  The example of the docstring, when each set is iterated in the order in which the
  model lists it: each family gets two goods.
\<close>

lemma allocate_twothirds_docstring:
  "allocate_twothirds (\<lambda>s. s) [twothirds_family, twothirds_family] [''w'', ''x'', ''y'', ''z'']
     = Inr [[''w'', ''y''], [''x'', ''z'']]"
  by (simp add: allocate_twothirds_def twothirds_family_def binary_member_def mk_BinaryAgent_def
      num_of_members_def num_of_members_if_def wants_and_holds_def chars_def set_add_def
      numeral_eq_Suc)

section \<open>Enhanced RWAV: the order of the families\<close>


lemma float_mul_half_10: "float_mul (1 / 2) 10 = 5"
proof -
  have "round_double 5 = 5"
    by (rule round_double_exact [of 5 5 0]) simp_all
  then show ?thesis by (simp add: float_mul_def)
qed





text \<open>The same for every order of iteration and every \<^verbatim>\<open>allocate_using_RWAV\<close>.\<close>

lemma lists_sets_single:
  assumes "lists_sets set_order"
  shows "set_order [x] = [x]"
proof -
  from assms have d: "distinct (set_order [x])" and s: "set (set_order [x]) = {x}"
    by (simp_all add: lists_sets_def)
  from d have "length (set_order [x]) = card (set (set_order [x]))"
    by (simp add: distinct_card)
  with s have "length (set_order [x]) = 1" by simp
  then obtain y where y: "set_order [x] = [y]" by (auto simp: length_Suc_conv)
  with s show ?thesis by simp
qed

lemma enhanced_RWAV_first_family_wins:
  assumes "lists_sets set_order"
  shows "allocate_using_enhanced_RWAV fallback set_order [enhanced_family1, enhanced_family2] [''y''] (1 / 2)
           = Inr [[''y''], []]
         \<and> allocate_using_enhanced_RWAV fallback set_order [enhanced_family2, enhanced_family1] [''y''] (1 / 2)
           = Inr [[''y''], []]"
  by (simp add: allocate_using_enhanced_RWAV_def enhanced_family1_def enhanced_family2_def binary_member_def
        mk_BinaryAgent_def num_of_members_def num_of_members_who_want_def chars_def difference_def
        float_mul_half_10 lists_sets_single [OF assms])

section \<open>The partitions of a collection and the Bell numbers\<close>

lemma insert_first_update:
  "insert_first x p = map (\<lambda>n. p[n := x # p ! n]) [0..<length p]"
  by (simp add: insert_first_def upd_conv_take_nth_drop)

lemma partitions_Cons2:
  "partitions (x # y # ys) =
     (case partitions (y # ys) of Inl e \<Rightarrow> Inl e | Inr ps \<Rightarrow> Inr (concat (map (add_first x) ps)))"
  by (cases "partitions (y # ys)") (simp_all add: add_first_def [abs_def])

lemma partitions_total: "xs \<noteq> [] \<Longrightarrow> \<exists>ps. partitions xs = Inr ps"
proof (induction xs rule: partitions.induct)
  case (3 first v va)
  then show ?case by (auto simp: partitions_Cons2 simp del: partitions.simps)
qed simp_all

lemma in_add_first:
  "q \<in> set (add_first x p) \<longleftrightarrow> q = [x] # p \<or> (\<exists>n<length p. q = p[n := x # p ! n])"
  by (auto simp: add_first_def insert_first_update)

lemma mset_concat_update:
  assumes "n < length p"
  shows "mset (concat (p[n := x # p ! n])) = add_mset x (mset (concat p))"
proof -
  have "concat p = concat (take n p) @ p ! n @ concat (drop (Suc n) p)"
    using assms by (metis concat.simps(2) concat_append id_take_nth_drop)
  moreover have "concat (p[n := x # p ! n]) = concat (take n p) @ (x # p ! n) @ concat (drop (Suc n) p)"
    using assms by (simp add: upd_conv_take_nth_drop)
  ultimately show ?thesis by simp
qed

lemma add_first_part:
  assumes "q \<in> set (add_first x p)"
  shows "mset (concat q) = add_mset x (mset (concat p))"
    and "[] \<notin> set p \<Longrightarrow> [] \<notin> set q"
    and "length q \<le> Suc (length p)"
  using assms by (auto simp: in_add_first mset_concat_update dest!: set_update_subset_insert [THEN subsetD])

lemma partitions_parts:
  "partitions xs = Inr ps \<Longrightarrow> p \<in> set ps \<Longrightarrow>
   mset (concat p) = mset xs \<and> [] \<notin> set p \<and> length p \<le> length xs"
proof (induction xs arbitrary: ps p rule: partitions.induct)
  case 1
  then show ?case by simp
next
  case (2 x)
  then show ?case by auto
next
  case (3 first v va)
  from "3.prems"(1) obtain qs where qs: "partitions (v # va) = Inr qs"
    and ps: "ps = concat (map (add_first first) qs)"
    by (auto simp: partitions_Cons2 simp del: partitions.simps split: sum.splits)
  from "3.prems"(2) ps obtain q where q: "q \<in> set qs" and p: "p \<in> set (add_first first q)" by auto
  from "3.IH" [OF qs q] add_first_part [OF p] show ?case by auto
qed


lemma length_filter_concat_map:
  "length (filter P (concat (map f ps))) = sum_list (map (\<lambda>p. length (filter P (f p))) ps)"
  by (induction ps) simp_all

lemma count_insert_first:
  "length (filter (\<lambda>q. length q = k) (insert_first x p)) = (if length p = k then k else 0)"
  by (simp add: insert_first_update filter_map comp_def)

lemma count_add_first:
  "length (filter (\<lambda>q. length q = k) (add_first x p))
     = (if length p = k then k else 0) + (if Suc (length p) = k then 1 else 0)"
  by (simp add: add_first_def count_insert_first)

lemma sum_list_if_const:
  "sum_list (map (\<lambda>p. if P p then (c::nat) else 0) ps) = c * length (filter P ps)"
  by (induction ps) simp_all

lemma count_concat_add_first:
  "length (filter (\<lambda>q. length q = Suc k) (concat (map (add_first x) ps)))
     = Suc k * length (filter (\<lambda>p. length p = Suc k) ps) + length (filter (\<lambda>p. length p = k) ps)"
proof -
  have "length (filter (\<lambda>q. length q = Suc k) (concat (map (add_first x) ps)))
      = sum_list (map (\<lambda>p. (if length p = Suc k then Suc k else 0) + (if length p = k then 1 else 0)) ps)"
    by (simp add: length_filter_concat_map count_add_first)
  also have "\<dots> = sum_list (map (\<lambda>p. if length p = Suc k then Suc k else 0) ps)
                  + sum_list (map (\<lambda>p. if length p = k then 1 else 0) ps)"
    by (simp add: sum_list_addf)
  finally show ?thesis by (simp only: sum_list_if_const)
qed

lemma add_first_nonempty: "q \<in> set (add_first x p) \<Longrightarrow> q \<noteq> []"
proof
  assume "q \<in> set (add_first x p)" "q = []"
  then obtain n where "n < length p" "[] = p[n := x # p ! n]" by (auto simp: in_add_first)
  then have "length p = 0" by (metis length_list_update list.size(3))
  with \<open>n < length p\<close> show False by simp
qed

lemma count_concat_add_first_0:
  "filter (\<lambda>q. q = []) (concat (map (add_first x) ps)) = []"
  by (auto simp: filter_empty_conv dest: add_first_nonempty)

lemma partitions_count_parts:
  "partitions xs = Inr ps \<Longrightarrow> length (filter (\<lambda>p. length p = k) ps) = Stirling2 (length xs) k"
proof (induction xs arbitrary: ps k rule: partitions.induct)
  case 1
  then show ?case by simp
next
  case (2 x)
  then show ?case by (cases k; cases "k - 1") auto
next
  case (3 first v va)
  from "3.prems"(1) obtain qs where qs: "partitions (v # va) = Inr qs"
    and ps: "ps = concat (map (add_first first) qs)"
    by (auto simp: partitions_Cons2 simp del: partitions.simps split: sum.splits)
  show ?case
  proof (cases k)
    case 0
    then show ?thesis by (simp add: ps count_concat_add_first_0)
  next
    case (Suc j)
    have "length (filter (\<lambda>p. length p = Suc j) ps)
        = Suc j * Stirling2 (length (v # va)) (Suc j) + Stirling2 (length (v # va)) j"
      unfolding ps count_concat_add_first by (simp only: "3.IH" [OF qs])
    then show ?thesis using Suc by simp
  qed
qed

lemma length_by_parts:
  "\<forall>p\<in>set ps. length p \<le> n \<Longrightarrow> length ps = (\<Sum>k\<le>n. length (filter (\<lambda>p. length p = k) ps))"
proof (induction ps)
  case Nil
  then show ?case by simp
next
  case (Cons p ps)
  then have le: "length p \<le> n" and ih: "length ps = (\<Sum>k\<le>n. length (filter (\<lambda>p. length p = k) ps))"
    by simp_all
  have "(\<Sum>k\<le>n. length (filter (\<lambda>q. length q = k) (p # ps)))
      = (\<Sum>k\<le>n. (if length p = k then 1 else 0) + length (filter (\<lambda>q. length q = k) ps))"
    by (intro sum.cong) auto
  also have "\<dots> = (\<Sum>k\<le>n. if length p = k then 1 else 0) + length ps"
    using ih by (simp add: sum.distrib)
  also have "(\<Sum>k\<le>n. if length p = k then 1 else 0) = (1::nat)"
    using le by simp
  finally show ?case by simp
qed

lemma partitions_count: "partitions xs = Inr ps \<Longrightarrow> length ps = Bell (length xs)"
proof -
  assume ps: "partitions xs = Inr ps"
  then have "\<forall>p\<in>set ps. length p \<le> length xs" using partitions_parts by blast
  from length_by_parts [OF this] show ?thesis
    by (simp add: Bell_def partitions_count_parts [OF ps])
qed


lemma distinct_concat_nth_disjoint:
  "distinct (concat p) \<Longrightarrow> i < j \<Longrightarrow> j < length p \<Longrightarrow> set (p ! i) \<inter> set (p ! j) = {}"
proof (induction p arbitrary: i j)
  case Nil
  then show ?case by simp
next
  case (Cons a p)
  obtain j' where j: "j = Suc j'" using Cons.prems(2) by (cases j) auto
  show ?case
  proof (cases i)
    case 0
    have "p ! j' \<in> set p" using Cons.prems(3) j by simp
    then have "set (p ! j') \<subseteq> set (concat p)" by auto
    then show ?thesis using Cons.prems(1) 0 j by auto
  next
    case (Suc i')
    then show ?thesis using Cons.IH [of i' j'] Cons.prems j by simp
  qed
qed

text \<open>
  For a non-empty collection of \<open>n\<close> distinct elements the generator \<^verbatim>\<open>partitions\<close>
  yields exactly \<open>Bell n\<close> partitions; in each of them the parts are pairwise disjoint,
  their union is the collection, and each element of the collection occurs exactly once
  across the parts.
\<close>

lemma partitions_Bell:
  assumes "xs \<noteq> []" "distinct xs"
  shows "\<exists>ps. partitions xs = Inr ps \<and> length ps = Bell (length xs)
           \<and> (\<forall>p\<in>set ps.
                 (\<forall>i<length p. \<forall>j<length p. i \<noteq> j \<longrightarrow> set (p ! i) \<inter> set (p ! j) = {})
                 \<and> \<Union> (set ` set p) = set xs
                 \<and> mset (concat p) = mset xs)"
proof -
  from partitions_total [OF assms(1)] obtain ps where ps: "partitions xs = Inr ps" by blast
  have "(\<forall>i<length p. \<forall>j<length p. i \<noteq> j \<longrightarrow> set (p ! i) \<inter> set (p ! j) = {})
        \<and> \<Union> (set ` set p) = set xs \<and> mset (concat p) = mset xs" if p: "p \<in> set ps" for p
  proof -
    have m: "mset (concat p) = mset xs" using partitions_parts [OF ps p] by simp
    then have d: "distinct (concat p)" using assms(2) by (metis mset_eq_imp_distinct_iff)
    have "set (p ! i) \<inter> set (p ! j) = {}" if "i < length p" "j < length p" "i \<noteq> j" for i j
    proof (cases "i < j")
      case True
      then show ?thesis using d that by (intro distinct_concat_nth_disjoint)
    next
      case False
      then have "j < i" using that by simp
      then have "set (p ! j) \<inter> set (p ! i) = {}" using d that by (intro distinct_concat_nth_disjoint)
      then show ?thesis by auto
    qed
    moreover have "\<Union> (set ` set p) = set xs" using m by (metis set_concat set_mset_mset)
    ultimately show ?thesis using m by blast
  qed
  with ps partitions_count [OF ps] show ?thesis by blast
qed

text \<open>The example of the docstring.\<close>

lemma partitions_docstring:
  "partitions [1::nat, 2, 3]
     = Inr [[[1, 2, 3]], [[1], [2, 3]], [[1, 2], [3]], [[2], [1, 3]], [[1], [2], [3]]]"
  by (simp add: insert_first_def upt_rec)

lemma partitions_Bell_docstring:
  "partitions [1::nat, 2, 3]
     = Inr [[[1, 2, 3]], [[1], [2, 3]], [[1, 2], [3]], [[2], [1, 3]], [[1], [2], [3]]]
   \<and> Bell 3 = 5"
proof -
  have "[1::nat, 2, 3] \<noteq> []" "distinct [1::nat, 2, 3]" by simp_all
  from partitions_Bell [OF this] obtain ps where
    a: "partitions [1::nat, 2, 3] = Inr ps" and b: "length ps = Bell (length [1::nat, 2, 3])" by blast
  from a have "ps = [[[1, 2, 3]], [[1], [2, 3]], [[1, 2], [3]], [[2], [1, 3]], [[1], [2], [3]]]"
    unfolding partitions_docstring by simp
  with b have "Bell 3 = 5" by (simp add: numeral_3_eq_3)
  with partitions_docstring show ?thesis by (intro conjI)
qed

text \<open>
  Claim C5. The generator does not yield the \<open>Bell 0 = 1\<close> partitions of the empty
  collection, the one partition with no part: its base case is a collection of one
  element, and on the empty collection \<^verbatim>\<open>collection[0]\<close> raises \<^verbatim>\<open>IndexError\<close>. On every
  non-empty collection the generator does what the claim says (lemma \<open>partitions_Bell\<close>).
\<close>

theorem partitions_empty: "partitions [] = Inl IndexError \<and> Bell 0 = 1"
  by (simp add: Bell_def)

section \<open>The yielded partitions are the partitions of the set, each once\<close>

lemma in_parts_of: "A \<in> parts_of p \<longleftrightarrow> (\<exists>i<length p. A = set (p ! i))"
  unfolding parts_of_def image_iff by (metis in_set_conv_nth)

lemma nth_sets_differ:
  assumes "distinct (concat q)" "[] \<notin> set q" "i < length q" "j < length q" "i \<noteq> j"
  shows "set (q ! i) \<noteq> set (q ! j)"
proof
  assume e: "set (q ! i) = set (q ! j)"
  have "set (q ! i) \<inter> set (q ! j) = {}"
  proof (cases "i < j")
    case True
    then show ?thesis using assms by (intro distinct_concat_nth_disjoint)
  next
    case False
    then have "j < i" using assms(5) by simp
    then have "set (q ! j) \<inter> set (q ! i) = {}" using assms by (intro distinct_concat_nth_disjoint)
    then show ?thesis by auto
  qed
  with e have "set (q ! i) = {}" by simp
  then have "q ! i = []" by simp
  then show False using assms(2,3) by (metis nth_mem)
qed

lemma parts_partition:
  assumes "distinct (concat p)" "[] \<notin> set p"
  shows "partition_on (set (concat p)) (parts_of p)"
proof (rule partition_onI)
  show "\<Union> (parts_of p) = set (concat p)" by (simp add: parts_of_def)
next
  fix A B assume "A \<in> parts_of p" "B \<in> parts_of p" "A \<noteq> B"
  then obtain i j where ij: "i < length p" "j < length p" "A = set (p ! i)" "B = set (p ! j)"
    by (auto simp: in_parts_of)
  with \<open>A \<noteq> B\<close> have ne: "i \<noteq> j" by auto
  have "set (p ! i) \<inter> set (p ! j) = {}"
  proof (cases "i < j")
    case True
    then show ?thesis using assms ij by (intro distinct_concat_nth_disjoint)
  next
    case False
    then have "j < i" using ne by simp
    then have "set (p ! j) \<inter> set (p ! i) = {}" using assms ij by (intro distinct_concat_nth_disjoint)
    then show ?thesis by auto
  qed
  then show "disjnt A B" using ij by (simp add: disjnt_def)
next
  show "{} \<notin> parts_of p" using assms(2) by (auto simp: parts_of_def)
qed

lemma parts_of_Cons: "parts_of (a # p) = insert (set a) (parts_of p)"
  by (simp add: parts_of_def)

lemma parts_of_update:
  assumes "distinct (concat q)" "[] \<notin> set q" "n < length q"
  shows "parts_of (q[n := y]) = insert (set y) (parts_of q - {set (q ! n)})"
proof (rule set_eqI)
  fix A
  have "A \<in> parts_of (q[n := y]) \<longleftrightarrow> (\<exists>k<length q. A = set (q[n := y] ! k))"
    by (simp add: in_parts_of)
  also have "\<dots> \<longleftrightarrow> A = set y \<or> (\<exists>k<length q. k \<noteq> n \<and> A = set (q ! k))"
    using assms(3) by (auto simp: nth_list_update)
  also have "(\<exists>k<length q. k \<noteq> n \<and> A = set (q ! k)) \<longleftrightarrow> A \<in> parts_of q - {set (q ! n)}"
  proof
    assume "\<exists>k<length q. k \<noteq> n \<and> A = set (q ! k)"
    then obtain k where k: "k < length q" "k \<noteq> n" "A = set (q ! k)" by blast
    then have "A \<noteq> set (q ! n)" using nth_sets_differ [OF assms(1,2) k(1) assms(3) k(2)] by simp
    then show "A \<in> parts_of q - {set (q ! n)}" using k by (auto simp: in_parts_of)
  next
    assume "A \<in> parts_of q - {set (q ! n)}"
    then obtain k where "k < length q" "A = set (q ! k)" "A \<noteq> set (q ! n)"
      by (auto simp: in_parts_of)
    then show "\<exists>k<length q. k \<noteq> n \<and> A = set (q ! k)" by auto
  qed
  finally show "A \<in> parts_of (q[n := y]) \<longleftrightarrow> A \<in> insert (set y) (parts_of q - {set (q ! n)})"
    by simp
qed


lemma parts_subset:
  "A \<in> parts_of q \<Longrightarrow> A \<subseteq> set (concat q)"
  by (auto simp: parts_of_def)

lemma restrict_add_first:
  assumes "distinct (concat q)" "[] \<notin> set q" "x \<notin> set (concat q)" "p \<in> set (add_first x q)"
  shows "((\<inter>) (set (concat q)) ` parts_of p) - {{}} = parts_of q"
proof -
  define Y where "Y = set (concat q)"
  have xY: "x \<notin> Y" using assms(3) by (simp add: Y_def)
  have F1: "\<And>B. B \<in> parts_of q \<Longrightarrow> Y \<inter> B = B" unfolding Y_def using parts_subset by blast
  have F2: "{} \<notin> parts_of q" using assms(2) by (auto simp: parts_of_def)
  have img: "(\<inter>) Y ` (parts_of q - S) = parts_of q - S" for S
    using F1 by (auto simp: image_def)
  from assms(4) consider "p = [x] # q" | n where "n < length q" "p = q[n := x # q ! n]"
    by (auto simp: in_add_first)
  then have "((\<inter>) Y ` parts_of p) - {{}} = parts_of q"
  proof cases
    case 1
    have "Y \<inter> {x} = {}" using xY by simp
    then show ?thesis using F2 img [of "{}"] by (simp add: 1 parts_of_Cons)
  next
    case 2
    have A: "set (q ! n) \<in> parts_of q" using 2(1) by (auto simp: in_parts_of)
    have "Y \<inter> insert x (set (q ! n)) = set (q ! n)" using xY F1 [OF A] by auto
    then have "(\<inter>) Y ` parts_of p = insert (set (q ! n)) (parts_of q - {set (q ! n)})"
      by (simp add: 2(2) parts_of_update [OF assms(1,2) 2(1)] img)
    also have "\<dots> = parts_of q" using A by auto
    finally show ?thesis using F2 by simp
  qed
  then show ?thesis by (simp only: Y_def)
qed

lemma distinct_map_concat_map:
  assumes "distinct (map g qs)"
    and "\<And>q. q \<in> set qs \<Longrightarrow> distinct (map h (f q))"
    and "\<And>q p. q \<in> set qs \<Longrightarrow> p \<in> set (f q) \<Longrightarrow> r (h p) = g q"
  shows "distinct (map h (concat (map f qs)))"
  using assms
proof (induction qs)
  case Nil
  then show ?case by simp
next
  case (Cons q qs)
  have 1: "distinct (map h (f q))" using Cons.prems(2) by simp
  have 2: "distinct (map h (concat (map f qs)))"
    using Cons.prems by (intro Cons.IH) auto
  have 3: "h ` set (f q) \<inter> h ` set (concat (map f qs)) = {}"
  proof (rule ccontr)
    assume "h ` set (f q) \<inter> h ` set (concat (map f qs)) \<noteq> {}"
    then obtain p p' q' where "p \<in> set (f q)" "q' \<in> set qs" "p' \<in> set (f q')" "h p = h p'"
      by auto
    then have "g q = g q'" using Cons.prems(3) [of q p] Cons.prems(3) [of q' p'] by simp
    then show False using Cons.prems(1) \<open>q' \<in> set qs\<close> by auto
  qed
  from 1 2 3 show ?case by simp
qed


lemma x_part_of_add_first:
  assumes "distinct (concat q)" "[] \<notin> set q" "x \<notin> set (concat q)"
  shows "{x} \<in> parts_of ([x] # q)"
    and "n < length q \<Longrightarrow> insert x (set (q ! n)) \<in> parts_of (q[n := x # q ! n])"
    and "B \<in> parts_of ([x] # q) \<Longrightarrow> x \<in> B \<Longrightarrow> B = {x}"
    and "n < length q \<Longrightarrow> B \<in> parts_of (q[n := x # q ! n]) \<Longrightarrow> x \<in> B \<Longrightarrow> B = insert x (set (q ! n))"
proof -
  have notin: "\<And>B. B \<in> parts_of q \<Longrightarrow> x \<notin> B" using assms(3) parts_subset by blast
  show "{x} \<in> parts_of ([x] # q)" by (simp add: parts_of_Cons)
  show "n < length q \<Longrightarrow> insert x (set (q ! n)) \<in> parts_of (q[n := x # q ! n])"
    by (simp add: parts_of_update [OF assms(1,2)])
  show "B \<in> parts_of ([x] # q) \<Longrightarrow> x \<in> B \<Longrightarrow> B = {x}"
    using notin by (auto simp: parts_of_Cons)
  show "n < length q \<Longrightarrow> B \<in> parts_of (q[n := x # q ! n]) \<Longrightarrow> x \<in> B \<Longrightarrow> B = insert x (set (q ! n))"
    using notin by (auto simp: parts_of_update [OF assms(1,2)])
qed

lemma parts_of_inj_add_first:
  assumes "distinct (concat q)" "[] \<notin> set q" "x \<notin> set (concat q)"
    and "p \<in> set (add_first x q)" "p' \<in> set (add_first x q)" "parts_of p = parts_of p'"
  shows "p = p'"
proof -
  note xp = x_part_of_add_first [OF assms(1-3)]
  have ne: "\<And>n. n < length q \<Longrightarrow> set (q ! n) \<noteq> {}" using assms(2) by (metis nth_mem set_empty)
  have nx: "\<And>n. n < length q \<Longrightarrow> x \<notin> set (q ! n)" using assms(3) by (metis nth_mem UN_I set_concat)
  have single: "False" if "n < length q" "parts_of ([x] # q) = parts_of (q[n := x # q ! n])" for n
  proof -
    have "{x} \<in> parts_of (q[n := x # q ! n])" using xp(1) that(2) by simp
    then have "{x} = insert x (set (q ! n))" using xp(4) [OF that(1)] by simp
    then have "set (q ! n) \<subseteq> {x}" by auto
    moreover have "set (q ! n) \<noteq> {}" by (rule ne [OF that(1)])
    ultimately have "x \<in> set (q ! n)" by (metis subset_singletonD insertI1)
    then show False using nx [OF that(1)] by simp
  qed
  have upd: "n = m" if "n < length q" "m < length q"
    "parts_of (q[n := x # q ! n]) = parts_of (q[m := x # q ! m])" for n m
  proof (rule ccontr)
    assume "n \<noteq> m"
    have "insert x (set (q ! n)) \<in> parts_of (q[m := x # q ! m])" using xp(2) [OF that(1)] that(3) by simp
    then have "insert x (set (q ! n)) = insert x (set (q ! m))" using xp(4) [OF that(2)] by simp
    then have "set (q ! n) = set (q ! m)" using nx [OF that(1)] nx [OF that(2)] by auto
    then show False using nth_sets_differ [OF assms(1,2) that(1,2) \<open>n \<noteq> m\<close>] by simp
  qed
  from assms(4) consider "p = [x] # q" | n where "n < length q" "p = q[n := x # q ! n]"
    by (auto simp: in_add_first)
  then show ?thesis
  proof cases
    case 1
    from assms(5) consider "p' = [x] # q" | m where "m < length q" "p' = q[m := x # q ! m]"
      by (auto simp: in_add_first)
    then show ?thesis
    proof cases
      case 1
      then show ?thesis using \<open>p = [x] # q\<close> by simp
    next
      case 2
      then show ?thesis using single [OF 2(1)] assms(6) \<open>p = [x] # q\<close> by simp
    qed
  next
    case 2
    from assms(5) consider "p' = [x] # q" | m where "m < length q" "p' = q[m := x # q ! m]"
      by (auto simp: in_add_first)
    then show ?thesis
    proof cases
      case 1
      then show ?thesis using single [OF 2(1)] assms(6) 2(2) by simp
    next
      case (2 m)
      then show ?thesis using upd [OF \<open>n < length q\<close> 2(1)] assms(6) \<open>p = q[n := x # q ! n]\<close> by simp
    qed
  qed
qed

lemma distinct_add_first: "distinct (add_first x q)"
proof -
  have "inj_on (\<lambda>n. q[n := x # q ! n]) (set [0..<length q])"
  proof (rule inj_onI)
    fix n m assume nm: "n \<in> set [0..<length q]" "m \<in> set [0..<length q]"
      and e: "q[n := x # q ! n] = q[m := x # q ! m]"
    show "n = m"
    proof (rule ccontr)
      assume "n \<noteq> m"
      then have "q[m := x # q ! m] ! n = q ! n" by simp
      moreover have "q[n := x # q ! n] ! n = x # q ! n" using nm by simp
      ultimately show False using e by simp
    qed
  qed
  then have "distinct (insert_first x q)"
    by (simp add: insert_first_update distinct_map)
  moreover have "[x] # q \<notin> set (insert_first x q)"
  proof
    assume "[x] # q \<in> set (insert_first x q)"
    then obtain n where "[x] # q = q[n := x # q ! n]" by (auto simp: insert_first_update)
    then have "length ([x] # q) = length (q[n := x # q ! n])" by simp
    then show False by simp
  qed
  ultimately show ?thesis by (simp add: add_first_def)
qed

lemma distinct_parts_add_first:
  assumes "distinct (concat q)" "[] \<notin> set q" "x \<notin> set (concat q)"
  shows "distinct (map parts_of (add_first x q))"
  unfolding distinct_map
  using distinct_add_first parts_of_inj_add_first [OF assms] by (auto intro: inj_onI)


lemma add_first_surj:
  assumes P: "partition_on (insert x Y) P" and xY: "x \<notin> Y"
    and q: "parts_of q = ((\<inter>) Y ` P) - {{}}" "distinct (concat q)" "[] \<notin> set q"
  shows "\<exists>p\<in>set (add_first x q). parts_of p = P"
proof -
  have U: "\<Union>P = insert x Y" and D: "disjoint P" and E: "{} \<notin> P"
    using P by (auto simp: partition_on_def)
  from U obtain A where A: "A \<in> P" "x \<in> A" by blast
  have other: "x \<notin> B \<and> B \<subseteq> Y \<and> Y \<inter> B = B" if "B \<in> P" "B \<noteq> A" for B
  proof -
    have "disjnt B A" using D that A(1) by (auto simp: pairwise_def)
    then have "x \<notin> B" using A(2) by (auto simp: disjnt_def)
    moreover have "B \<subseteq> insert x Y" using U that(1) by blast
    ultimately show ?thesis by blast
  qed
  have YA: "Y \<inter> A = A - {x}" using U A(1) xY by blast
  have img: "(\<inter>) Y ` P = insert (A - {x}) (P - {A})"
  proof -
    have "(\<inter>) Y ` P = insert (Y \<inter> A) ((\<inter>) Y ` (P - {A}))" using A(1) by blast
    moreover have "(\<inter>) Y ` (P - {A}) = P - {A}" using other by (auto simp: image_def)
    ultimately show ?thesis using YA by simp
  qed
  show ?thesis
  proof (cases "A = {x}")
    case True
    have "parts_of q = P - {A}" using q(1) img True E by auto
    then have "parts_of ([x] # q) = P" using A(1) True by (auto simp: parts_of_Cons)
    moreover have "[x] # q \<in> set (add_first x q)" unfolding in_add_first by blast
    ultimately show ?thesis by blast
  next
    case False
    define A' where "A' = A - {x}"
    have A'ne: "A' \<noteq> {}" using False A(2) by (auto simp: A'_def)
    have A'notin: "A' \<notin> P"
    proof
      assume a: "A' \<in> P"
      have "A' \<noteq> A" using A(2) by (auto simp: A'_def)
      then have "disjnt A' A" using D a A(1) by (auto simp: pairwise_def)
      then show False using A'ne by (auto simp: A'_def disjnt_def)
    qed
    have pq: "parts_of q = insert A' (P - {A})" using q(1) img A'ne E by (auto simp: A'_def)
    then have "A' \<in> parts_of q" by simp
    then obtain n where n: "n < length q" "set (q ! n) = A'" unfolding in_parts_of by auto
    have "parts_of (q[n := x # q ! n]) = insert (insert x A') (insert A' (P - {A}) - {A'})"
      by (simp add: parts_of_update [OF q(2,3) n(1)] n(2) pq)
    also have "insert x A' = A" using A(2) by (auto simp: A'_def)
    also have "insert A' (P - {A}) - {A'} = P - {A}" using A'notin by auto
    also have "insert A (P - {A}) = P" using A(1) by auto
    finally have "parts_of (q[n := x # q ! n]) = P" .
    moreover have "q[n := x # q ! n] \<in> set (add_first x q)"
      using n(1) unfolding in_add_first by blast
    ultimately show ?thesis by blast
  qed
qed

lemma partition_on_single: "partition_on {x} P \<longleftrightarrow> P = {{x}}"
proof
  assume P: "partition_on {x} P"
  have U: "\<Union>P = {x}" using partition_onD1 [OF P] by simp
  have E: "{} \<notin> P" by (rule partition_onD3 [OF P])
  have every: "\<forall>B\<in>P. B = {x}"
  proof
    fix B assume B: "B \<in> P"
    then have "B \<subseteq> {x}" using U by blast
    moreover have "B \<noteq> {}" using B E by blast
    ultimately show "B = {x}" by (metis subset_singletonD)
  qed
  have "P \<noteq> {}" using U by auto
  then obtain B where "B \<in> P" by auto
  with every have in_P: "{x} \<in> P" by auto
  show "P = {{x}}"
  proof (rule equalityI)
    show "P \<subseteq> {{x}}"
    proof
      fix B assume "B \<in> P"
      with every have "B = {x}" by (rule bspec)
      then show "B \<in> {{x}}" by (simp only: singleton_iff)
    qed
    show "{{x}} \<subseteq> P" using in_P by (simp only: insert_subset empty_subsetI simp_thms)
  qed
next
  assume e: "P = {{x}}"
  have "partition_on {x} {{x}}" by (rule partition_on_space) (rule insert_not_empty)
  then show "partition_on {x} P" unfolding e .
qed


text \<open>
  For a collection of distinct elements the generator yields every partition of the set
  of its elements, and yields each of them once.
\<close>

lemma partitions_enumerate:
  "partitions xs = Inr ps \<Longrightarrow> distinct xs \<Longrightarrow>
   distinct (map parts_of ps) \<and> parts_of ` set ps = {P. partition_on (set xs) P}"
proof (induction xs arbitrary: ps rule: partitions.induct)
  case 1
  then show ?case by simp
next
  case (2 x)
  then have ps: "ps = [[[x]]]" by simp
  have "{P. partition_on {x} P} = {{{x}}}" by (simp only: partition_on_single singleton_conv)
  then show ?case by (simp add: ps parts_of_def)
next
  case (3 first v va)
  define Y where "Y = set (v # va)"
  from "3.prems"(1) obtain qs where qs: "partitions (v # va) = Inr qs"
    and ps: "ps = concat (map (add_first first) qs)"
    by (auto simp: partitions_Cons2 simp del: partitions.simps split: sum.splits)
  have dY: "distinct (v # va)" and fY: "first \<notin> Y" using "3.prems"(2) by (auto simp: Y_def)
  from "3.IH" [OF qs dY] have ih1: "distinct (map parts_of qs)"
    and ih2: "parts_of ` set qs = {Q. partition_on Y Q}" by (simp_all only: Y_def)
  have wf: "distinct (concat q) \<and> [] \<notin> set q \<and> set (concat q) = Y" if "q \<in> set qs" for q
  proof -
    from partitions_parts [OF qs that] have m: "mset (concat q) = mset (v # va)" and e: "[] \<notin> set q"
      by simp_all
    from m dY have "distinct (concat q)" by (metis mset_eq_imp_distinct_iff)
    moreover from m have "set (concat q) = Y" unfolding Y_def by (metis set_mset_mset)
    ultimately show ?thesis using e by simp
  qed
  have b: "distinct (map parts_of ps)"
    unfolding ps
  proof (rule distinct_map_concat_map [where g = parts_of and r = "\<lambda>P. ((\<inter>) Y ` P) - {{}}"])
    show "distinct (map parts_of qs)" by (rule ih1)
  next
    fix q assume "q \<in> set qs"
    then show "distinct (map parts_of (add_first first q))"
      using wf [of q] fY by (intro distinct_parts_add_first) simp_all
  next
    fix q p assume q: "q \<in> set qs" and p: "p \<in> set (add_first first q)"
    have "((\<inter>) (set (concat q)) ` parts_of p) - {{}} = parts_of q"
      using wf [OF q] fY p by (intro restrict_add_first) simp_all
    then show "((\<inter>) Y ` parts_of p) - {{}} = parts_of q" using wf [OF q] by simp
  qed
  have a1: "partition_on (set (first # v # va)) (parts_of p)" if "p \<in> set ps" for p
  proof -
    from partitions_parts [OF "3.prems"(1) that]
    have m: "mset (concat p) = mset (first # v # va)" and e: "[] \<notin> set p" by simp_all
    from m "3.prems"(2) have d: "distinct (concat p)" by (metis mset_eq_imp_distinct_iff)
    from m have "set (concat p) = set (first # v # va)" by (metis set_mset_mset)
    with parts_partition [OF d e] show ?thesis by simp
  qed
  have a2: "P \<in> parts_of ` set ps" if P: "partition_on (set (first # v # va)) P" for P
  proof -
    have P': "partition_on (insert first Y) P" using P by (simp add: Y_def)
    have "partition_on (Y \<inter> insert first Y) ((\<inter>) Y ` P - {{}})"
      using P' by (rule partition_on_restrict)
    moreover have "Y \<inter> insert first Y = Y" by blast
    ultimately have "((\<inter>) Y ` P) - {{}} \<in> parts_of ` set qs" using ih2 by simp
    then obtain q where q: "q \<in> set qs" "parts_of q = ((\<inter>) Y ` P) - {{}}" by auto
    from add_first_surj [OF P' fY q(2)] wf [OF q(1)]
    obtain p where "p \<in> set (add_first first q)" "parts_of p = P" by blast
    then show ?thesis using q(1) by (auto simp: ps)
  qed
  from a1 a2 have "parts_of ` set ps = {P. partition_on (set (first # v # va)) P}" by blast
  with b show ?case by simp
qed

lemma partitions_card:
  assumes "partitions xs = Inr ps" "distinct xs"
  shows "length ps = card {P. partition_on (set xs) P}"
proof -
  from partitions_enumerate [OF assms] have d: "distinct (map parts_of ps)"
    and e: "parts_of ` set ps = {P. partition_on (set xs) P}" by simp_all
  have "length ps = length (map parts_of ps)" by simp
  also have "\<dots> = card (set (map parts_of ps))" using d by (simp only: distinct_card)
  also have "set (map parts_of ps) = {P. partition_on (set xs) P}" using e by simp
  finally show ?thesis .
qed

text \<open>
  So the Bell number of the definition above is the number of the partitions of a set of
  \<open>n\<close> elements.
\<close>

lemma Bell_card: "Bell n = card {P. partition_on {..<n} P}"
proof (cases n)
  case 0
  have e: "{P::nat set set. partition_on {} P} = {{}}" by (simp only: partition_on_empty singleton_conv)
  have c: "card {P::nat set set. partition_on {} P} = Suc 0" unfolding e by simp
  have b: "Bell 0 = Suc 0" by (simp add: Bell_def)
  have l: "{..<(0::nat)} = {}" by simp
  show ?thesis unfolding 0 l c b by (rule refl)
next
  case (Suc m)
  then have ne: "[0..<n] \<noteq> []" by simp
  from partitions_total [OF ne] obtain ps where ps: "partitions [0..<n] = Inr ps" by blast
  have "length ps = Bell (length [0..<n])" by (rule partitions_count [OF ps])
  moreover have "length ps = card {P. partition_on (set [0..<n]) P}"
    by (rule partitions_card [OF ps]) simp
  moreover have "set [0..<n] = {..<n}" by auto
  ultimately show ?thesis by simp
qed

end
